theory Spec2Isabelle
  imports Main "HOL-Library.AList" "HOL-Library.Char_ord" "HOL-Library.List_Lexorder"
    "HOL-Library.Sublist"
begin

section \<open>Data model\<close>

text \<open>
  The records handled by \<^verbatim>\<open>SaveCommand\<close> are decoded JSON documents. A Python
  \<^verbatim>\<open>dict\<close> keeps its insertion order, which \<^verbatim>\<open>list(values.keys())\<close> and
  \<^verbatim>\<open>nested_sort\<close> observe, so a dictionary is an association list (a Python
  dictionary has pairwise distinct keys). Only the truth value of a number is ever
  inspected, so numbers are integers.
\<close>

datatype json =
    JNull
  | JBool bool
  | JNum int
  | JStr string
  | JList "json list"
  | JDict "(string \<times> json) list"

type_synonym dict = "(string \<times> json) list"

text \<open>
  The exceptions that the modelled code can raise; \<open>ExternalError\<close> stands for whatever a
  collaborator (serialiser, cipher, logout) raises.
\<close>

datatype error =
    KeyError
  | TypeError
  | UnboundLocalError
  | iLORisCorruptionError
  | InvalidFileFormattingError
  | NothingSelectedError
  | ExternalError

definition bindE :: "error + 'a \<Rightarrow> ('a \<Rightarrow> error + 'b) \<Rightarrow> error + 'b" where
  "bindE m f = (case m of Inl e \<Rightarrow> Inl e | Inr x \<Rightarrow> f x)"

subsection \<open>Python primitives on JSON values\<close>

text \<open>Truth value testing, as in \<^verbatim>\<open>if x:\<close>.\<close>

fun truthy :: "json \<Rightarrow> bool" where
  "truthy JNull = False"
| "truthy (JBool b) = b"
| "truthy (JNum n) = (n \<noteq> 0)"
| "truthy (JStr s) = (s \<noteq> [])"
| "truthy (JList xs) = (xs \<noteq> [])"
| "truthy (JDict d) = (d \<noteq> [])"

text \<open>Lists and dictionaries cannot be dictionary keys.\<close>

fun hashable :: "json \<Rightarrow> bool" where
  "hashable (JList xs) = False"
| "hashable (JDict d) = False"
| "hashable v = True"

text \<open>\<^verbatim>\<open>d[k]\<close> on a dictionary.\<close>

definition getitem :: "dict \<Rightarrow> string \<Rightarrow> error + json" where
  "getitem d k = (case map_of d k of None \<Rightarrow> Inl KeyError | Some v \<Rightarrow> Inr v)"

text \<open>\<^verbatim>\<open>v[k]\<close> with a string \<open>k\<close> on any value: only a dictionary supports it.\<close>

fun subscript :: "json \<Rightarrow> string \<Rightarrow> error + json" where
  "subscript (JDict d) k = getitem d k"
| "subscript v k = Inl TypeError"

text \<open>\<^verbatim>\<open>del d[k]\<close> on a dictionary.\<close>

definition del_key :: "string \<Rightarrow> dict \<Rightarrow> error + dict" where
  "del_key k d = (if k \<in> fst ` set d then Inr (AList.delete k d) else Inl KeyError)"

text \<open>Substring test, \<^verbatim>\<open>needle in haystack\<close> on two strings.\<close>

fun str_in :: "string \<Rightarrow> string \<Rightarrow> bool" where
  "str_in n [] = (n = [])"
| "str_in n (c # cs) = (prefix n (c # cs) \<or> str_in n cs)"

text \<open>
  \<^verbatim>\<open>k in v\<close> with a string \<open>k\<close>: key membership for a dictionary, element
  membership for a list, substring test for a string, \<^verbatim>\<open>TypeError\<close> otherwise.
\<close>

fun py_in :: "string \<Rightarrow> json \<Rightarrow> error + bool" where
  "py_in k (JDict d) = Inr (k \<in> fst ` set d)"
| "py_in k (JList xs) = Inr (JStr k \<in> set xs)"
| "py_in k (JStr s) = Inr (str_in k s)"
| "py_in k v = Inl TypeError"

text \<open>
  \<^verbatim>\<open>del d[k1][k2]...[kn]\<close>: every subscript but the last reads a nested value, the
  last one deletes. The nested dictionary is mutated in place, so it keeps its position
  in the enclosing dictionaries.
\<close>

fun del_path :: "dict \<Rightarrow> string list \<Rightarrow> error + dict" where
  "del_path d [] = Inr d"
| "del_path d [k] = del_key k d"
| "del_path d (k # ks) =
     bindE (getitem d k) (\<lambda>c.
       case c of
         JDict d' \<Rightarrow> bindE (del_path d' ks) (\<lambda>d''. Inr (AList.update k (JDict d'') d))
       | _ \<Rightarrow> Inl TypeError)"

text \<open>Reading along a path of keys, for stating properties: \<open>None\<close> when it is absent.\<close>

fun get_path :: "dict \<Rightarrow> string list \<Rightarrow> json option" where
  "get_path d [] = Some (JDict d)"
| "get_path d [k] = map_of d k"
| "get_path d (k # ks) =
     (case map_of d k of Some (JDict d') \<Rightarrow> get_path d' ks | _ \<Rightarrow> None)"

section \<open>saveworkerfunction\<close>

subsection \<open>The redaction loop over the keys of one record\<close>

definition always_drop :: "string list" where
  "always_drop = [''IPv4Addresses'', ''IPv6Addresses'', ''IPv6AddressPolicyTable'',
     ''MACAddress'', ''StaticNameServers'', ''AutoNeg'', ''FullDuplex'', ''SpeedMbps'']"

definition static_lists :: "string list" where
  "static_lists = [''IPv6StaticAddresses'', ''IPv6StaticDefaultGateways'',
     ''IPv4StaticAddresses'']"

definition dns_blocks :: "string list" where
  "dns_blocks = [''IPv4'', ''IPv6'', ''DHCPv6'', ''DHCPv4'']"

record wstate =
  vals :: dict
  typeselector :: json
  pathselector :: json

text \<open>
  \<^verbatim>\<open>if dictentry == type_string: typeselector = values[dictentry];
  pathselector = path; del values[dictentry]\<close>
\<close>

definition take_type :: "string \<Rightarrow> json \<Rightarrow> string \<Rightarrow> wstate \<Rightarrow> error + wstate" where
  "take_type type_string path dictentry st =
     (if dictentry = type_string then
        bindE (getitem (vals st) dictentry) (\<lambda>v.
        bindE (del_key dictentry (vals st)) (\<lambda>d.
          Inr \<lparr>vals = d, typeselector = v, pathselector = path\<rparr>))
      else Inr st)"

text \<open>\<^verbatim>\<open>if dictentry in [...]: del values[dictentry]\<close>\<close>

definition drop_always :: "string \<Rightarrow> dict \<Rightarrow> error + dict" where
  "drop_always dictentry d =
     (if dictentry \<in> set always_drop then del_key dictentry d else Inr d)"

text \<open>\<^verbatim>\<open>if dictentry in [...]: if values[dictentry]: del values[dictentry]\<close>\<close>

definition drop_static :: "string \<Rightarrow> dict \<Rightarrow> error + dict" where
  "drop_static dictentry d =
     (if dictentry \<in> set static_lists then
        bindE (getitem d dictentry) (\<lambda>v. if truthy v then del_key dictentry d else Inr d)
      else Inr d)"

text \<open>
  \<^verbatim>\<open>if f in values[dictentry]: del values[dictentry][f];
  del values["Oem"]["Hpe"][dictentry][f]\<close>
\<close>

definition scrub :: "string \<Rightarrow> string \<Rightarrow> dict \<Rightarrow> error + dict" where
  "scrub dictentry f d =
     bindE (getitem d dictentry) (\<lambda>blk.
     bindE (py_in f blk) (\<lambda>present.
       if present then
         bindE (del_path d [dictentry, f]) (\<lambda>d1.
           del_path d1 [''Oem'', ''Hpe'', dictentry, f])
       else Inr d))"

definition drop_dns :: "string \<Rightarrow> dict \<Rightarrow> error + dict" where
  "drop_dns dictentry d =
     (if dictentry \<in> set dns_blocks then
        bindE (scrub dictentry ''DNSServers'' d) (scrub dictentry ''UseDNSServers'')
      else Inr d)"

text \<open>The body of \<^verbatim>\<open>for dictentry in list(values.keys())\<close>: four consecutive \<^verbatim>\<open>if\<close>s.\<close>

definition step :: "string \<Rightarrow> json \<Rightarrow> string \<Rightarrow> wstate \<Rightarrow> error + wstate" where
  "step type_string path dictentry st =
     bindE (take_type type_string path dictentry st) (\<lambda>st1.
     bindE (drop_always dictentry (vals st1)) (\<lambda>d2.
     bindE (drop_static dictentry d2) (\<lambda>d3.
     bindE (drop_dns dictentry d3) (\<lambda>d4.
       Inr (st1\<lparr>vals := d4\<rparr>)))))"

fun run_keys :: "string \<Rightarrow> json \<Rightarrow> string list \<Rightarrow> wstate \<Rightarrow> error + wstate" where
  "run_keys type_string path [] st = Inr st"
| "run_keys type_string path (k # ks) st =
     bindE (step type_string path k st) (run_keys type_string path ks)"

text \<open>
  The whole inner loop on one record: the keys are snapshotted before the loop, the
  selectors start as \<^verbatim>\<open>None\<close>.
\<close>

definition redact :: "string \<Rightarrow> json \<Rightarrow> dict \<Rightarrow> error + wstate" where
  "redact type_string path values =
     run_keys type_string path (map fst values)
       \<lparr>vals = values, typeselector = JNull, pathselector = JNull\<rparr>"

subsection \<open>Locating the identity of every record\<close>

text \<open>A list comprehension whose body may raise: the first exception ends it.\<close>

fun comprehension :: "('a \<Rightarrow> error + 'b) \<Rightarrow> 'a list \<Rightarrow> error + 'b list" where
  "comprehension f [] = Inr []"
| "comprehension f (x # xs) =
     bindE (f x) (\<lambda>y. bindE (comprehension f xs) (\<lambda>ys. Inr (y # ys)))"

text \<open>\<^verbatim>\<open>{key: val}\<close>: the key must be hashable.\<close>

definition single :: "json \<Rightarrow> dict \<Rightarrow> error + (json \<times> dict)" where
  "single key val = (if hashable key then Inr (key, val) else Inl TypeError)"

text \<open>\<^verbatim>\<open>{val[hrefstring]: val}\<close>\<close>

definition top_level :: "string \<Rightarrow> dict \<Rightarrow> error + (json \<times> dict)" where
  "top_level hrefstring val = bindE (getitem val hrefstring) (\<lambda>key. single key val)"

text \<open>\<^verbatim>\<open>{val["links"]["self"][hrefstring]: val}\<close>\<close>

definition links_self :: "string \<Rightarrow> dict \<Rightarrow> error + (json \<times> dict)" where
  "links_self hrefstring val =
     bindE (getitem val ''links'') (\<lambda>l.
     bindE (subscript l ''self'') (\<lambda>s.
     bindE (subscript s hrefstring) (\<lambda>key. single key val)))"

text \<open>The two nested \<^verbatim>\<open>try\<close> blocks: only \<^verbatim>\<open>KeyError\<close> is caught.\<close>

definition locate :: "string \<Rightarrow> dict list \<Rightarrow> error + (json \<times> dict) list" where
  "locate hrefstring content =
     (case comprehension (top_level hrefstring) content of
        Inl KeyError \<Rightarrow>
          (case comprehension (links_self hrefstring) content of
             Inl KeyError \<Rightarrow> Inl iLORisCorruptionError
           | r \<Rightarrow> r)
      | r \<Rightarrow> r)"

subsection \<open>Building the entries\<close>

text \<open>
  \<^verbatim>\<open>tempcontents\<close> is the one-key dictionary \<^verbatim>\<open>{typeselector: {pathselector: values}}\<close>.
\<close>

record entry =
  etype :: json
  epath :: json
  eprops :: dict

text \<open>
  \<^verbatim>\<open>if values: tempcontents = dict(); if typeselector and pathselector: ... else: raise\<close>.
  The variable \<^verbatim>\<open>tempcontents\<close> is assigned only under \<^verbatim>\<open>if values\<close>; \<open>None\<close> stands
  for the unbound local variable.
\<close>

definition make_entry :: "entry option \<Rightarrow> wstate \<Rightarrow> error + entry option" where
  "make_entry tempcontents st =
     (if vals st \<noteq> [] then
        (if truthy (typeselector st) \<and> truthy (pathselector st) then
           (if hashable (typeselector st) then
              Inr (Some \<lparr>etype = typeselector st, epath = pathselector st, eprops = vals st\<rparr>)
            else Inl TypeError)
         else Inl InvalidFileFormattingError)
      else Inr tempcontents)"

text \<open>
  \<^verbatim>\<open>for content in contents\<close>, with \<^verbatim>\<open>templist.append(tempcontents)\<close> run for every
  record, whether or not \<^verbatim>\<open>tempcontents\<close> was assigned for it.
\<close>

fun worker_loop ::
  "string \<Rightarrow> entry list \<Rightarrow> entry option \<Rightarrow> (json \<times> dict) list \<Rightarrow> error + entry list" where
  "worker_loop type_string templist tempcontents [] = Inr templist"
| "worker_loop type_string templist tempcontents ((path, values) # rest) =
     bindE (redact type_string path values) (\<lambda>st.
     bindE (make_entry tempcontents st) (\<lambda>tc.
       case tc of
         None \<Rightarrow> Inl UnboundLocalError
       | Some e \<Rightarrow> worker_loop type_string (templist @ [e]) (Some e) rest))"

definition saveworkerfunction :: "string \<Rightarrow> string \<Rightarrow> dict list \<Rightarrow> error + entry list" where
  "saveworkerfunction hrefstring type_string content =
     bindE (locate hrefstring content) (worker_loop type_string [] None)"

section \<open>The canonical sorter\<close>

text \<open>
  \<^verbatim>\<open>for key, value in data.items(): if isinstance(value, dict): data[key] =
  self.nested_sort(value)\<close>, then \<^verbatim>\<open>OrderedDict(sorted(list(data.items()), key=lambda
  x: x[0]))\<close>. Python's \<^verbatim>\<open>sorted\<close> is stable, as \<^const>\<open>sort_key\<close> is, and strings
  are compared lexicographically by character code.
\<close>

function nested_sort :: "dict \<Rightarrow> dict" where
  "nested_sort data =
     sort_key fst
       (map (\<lambda>(key, value).
          (key, case value of JDict d \<Rightarrow> JDict (nested_sort d) | _ \<Rightarrow> value)) data)"
  by pat_completeness auto
termination
proof (relation "measure (\<lambda>d. size (JDict d))")
  show "wf (measure (\<lambda>d. size (JDict d)))" by simp
next
  fix data :: dict and x key "value" d
  assume "x \<in> set data" "(key, value) = x" "value = JDict d"
  then have "(key, JDict d) \<in> set data" by simp
  then have "size (JDict d) \<le> size_list (size_prod (\<lambda>_. 0) size) data"
    by (induction data) auto
  then show "(d, data) \<in> measure (\<lambda>d. size (JDict d))" by simp
qed

section \<open>run: gathering the passes, the header, the destination file\<close>

text \<open>An element of the saved list: the header dictionary or one entry.\<close>

datatype element = Header dict | Entry entry

text \<open>
  \<^verbatim>\<open>templist = list(); templist.append(headers); for content in contents:
  templist.append(content)\<close>
\<close>

definition add_save_file_header :: "dict \<Rightarrow> entry list \<Rightarrow> element list" where
  "add_save_file_header headers contents =
     foldl (\<lambda>templist content. templist @ [Entry content]) [Header headers] contents"

text \<open>
  \<^verbatim>\<open>for select in options.multisave: ...; contents += self.saveworkerfunction()\<close>. The
  record source hands over one batch of records for every selection.
\<close>

fun multisave_loop ::
  "string \<Rightarrow> string \<Rightarrow> entry list \<Rightarrow> dict list list \<Rightarrow> error + entry list" where
  "multisave_loop hrefstring type_string contents [] = Inr contents"
| "multisave_loop hrefstring type_string contents (batch # rest) =
     bindE (saveworkerfunction hrefstring type_string batch) (\<lambda>c.
       multisave_loop hrefstring type_string (contents @ c) rest)"

definition gather ::
  "string \<Rightarrow> string \<Rightarrow> dict list \<Rightarrow> dict list list \<Rightarrow> error + entry list" where
  "gather hrefstring type_string primary multisave =
     bindE (saveworkerfunction hrefstring type_string primary) (\<lambda>contents.
       multisave_loop hrefstring type_string contents multisave)"

text \<open>
  \<^verbatim>\<open>if not contents: raise redfish.ris.NothingSelectedError; else: contents =
  self.add_save_file_header(contents)\<close>
\<close>

definition assemble :: "dict \<Rightarrow> entry list \<Rightarrow> error + element list" where
  "assemble headers contents =
     (if contents = [] then Inl NothingSelectedError
      else Inr (add_save_file_header headers contents))"

text \<open>The list that \<^verbatim>\<open>run\<close> hands to the encoder, or the exception raised before.\<close>

definition snapshot ::
  "string \<Rightarrow> string \<Rightarrow> dict list \<Rightarrow> dict list list \<Rightarrow> dict \<Rightarrow> error + element list" where
  "snapshot hrefstring type_string primary multisave headers =
     bindE (gather hrefstring type_string primary multisave) (assemble headers)"

text \<open>
  The serialiser \<^verbatim>\<open>json.dumps\<close> (its argument: the \<^verbatim>\<open>sort_keys\<close> flag) and
  \<^verbatim>\<open>Encryption().encrypt_file\<close> are not part of this file: they are parameters, and
  either may raise. \<^verbatim>\<open>options.encryption\<close> is \<^verbatim>\<open>None\<close> or the key given on the command
  line, and \<^verbatim>\<open>if options.encryption\<close> tests its truth value: an empty key takes the plain
  branch.
\<close>

definition encode ::
  "(bool \<Rightarrow> element list \<Rightarrow> error + string) \<Rightarrow> (string \<Rightarrow> string \<Rightarrow> error + string) \<Rightarrow>
   string option \<Rightarrow> element list \<Rightarrow> error + string" where
  "encode dumps encrypt_file encryption contents =
     (case encryption of
        Some key \<Rightarrow>
          if key \<noteq> [] then bindE (dumps False contents) (\<lambda>txt. encrypt_file txt key)
          else dumps True contents
      | None \<Rightarrow> dumps True contents)"

datatype return_code = SUCCESS

text \<open>
  \<^verbatim>\<open>run\<close> from the first call of \<^verbatim>\<open>saveworkerfunction\<close> to its \<^verbatim>\<open>return\<close>. The
  destination file is \<open>None\<close> when it does not exist and \<open>Some bytes\<close> otherwise.
  \<^verbatim>\<open>with open(self.filename, "w") as outfile: outfile.write(...)\<close> opens the file, which
  creates or empties it, before the argument of \<^verbatim>\<open>write\<close> is evaluated. After the write
  come \<^verbatim>\<open>self.rdmc.ui.printer(...)\<close>, which only prints, and
  \<^verbatim>\<open>self.cmdbase.logout_routine(self, options)\<close>, which is not part of this file: its
  outcome is the parameter \<open>logout_routine\<close>, and it may raise.
\<close>

definition run ::
  "(bool \<Rightarrow> element list \<Rightarrow> error + string) \<Rightarrow> (string \<Rightarrow> string \<Rightarrow> error + string) \<Rightarrow>
   error + unit \<Rightarrow> string \<Rightarrow> string \<Rightarrow> dict list \<Rightarrow> dict list list \<Rightarrow> dict \<Rightarrow>
   string option \<Rightarrow> string option \<Rightarrow> (error + return_code) \<times> string option" where
  "run dumps encrypt_file logout_routine hrefstring type_string primary multisave headers
       encryption file =
     (case snapshot hrefstring type_string primary multisave headers of
        Inl e \<Rightarrow> (Inl e, file)
      | Inr contents \<Rightarrow>
          (let opened = Some [] in
           case encode dumps encrypt_file encryption contents of
             Inl e \<Rightarrow> (Inl e, opened)
           | Inr data \<Rightarrow> (bindE logout_routine (\<lambda>_. Inr SUCCESS), Some data)))"

section \<open>Auxiliary notions for the proofs\<close>

text \<open>
  Redaction only ever deletes: a path that is absent from a dictionary stays absent.
\<close>

definition shrinks :: "dict \<Rightarrow> dict \<Rightarrow> bool" where
  "shrinks d d' \<longleftrightarrow> (\<forall>q. get_path d q = None \<longrightarrow> get_path d' q = None)"

text \<open>The redaction loop raises nothing but \<^verbatim>\<open>KeyError\<close> and \<^verbatim>\<open>TypeError\<close>.\<close>

definition py_only :: "error + 'a \<Rightarrow> bool" where
  "py_only r \<longleftrightarrow> (\<forall>e. r = Inl e \<longrightarrow> e = KeyError \<or> e = TypeError)"

text \<open>
  A key is settled in a dictionary when the loop body does nothing for it: it is not the
  type field, not on the always-drop list, a static list under it is empty, and a protocol
  block under it has neither name-server field.
\<close>

definition settled :: "string \<Rightarrow> dict \<Rightarrow> string \<Rightarrow> bool" where
  "settled type_string d k \<longleftrightarrow>
     k \<noteq> type_string \<and> k \<notin> set always_drop \<and>
     (k \<in> set static_lists \<longrightarrow> (\<exists>v. map_of d k = Some v \<and> \<not> truthy v)) \<and>
     (k \<in> set dns_blocks \<longrightarrow>
        (\<exists>blk. map_of d k = Some blk \<and> py_in ''DNSServers'' blk = Inr False \<and>
           py_in ''UseDNSServers'' blk = Inr False))"

text \<open>
  What \<^verbatim>\<open>nested_sort\<close> does to one value of the dictionary it sorts: a dictionary is sorted
  in turn, anything else (a list too) is left as it is.
\<close>

definition sort_value :: "json \<Rightarrow> json" where
  "sort_value v = (case v of JDict d \<Rightarrow> JDict (nested_sort d) | _ \<Rightarrow> v)"



section \<open>Example records\<close>

text \<open>Two records of the shape the Redfish service returns, used in the worked examples.\<close>

definition bios :: dict where
  "bios = [(''@odata.id'', JStr ''/redfish/v1/systems/1/bios''), (''@odata.type'', JStr ''Bios.''),
     (''AttributeX'', JNum 1), (''MACAddress'', JStr ''aa:bb'')]"

definition chassis :: dict where
  "chassis = [(''@odata.type'', JStr ''Chassis.''), (''@odata.id'', JStr ''/redfish/v1/chassis/1''),
     (''AssetTag'', JStr '''')]"

definition nic :: dict where
  "nic = [(''@odata.type'', JStr ''EthernetInterface.''), (''MACAddress'', JStr ''aa:bb''),
     (''SpeedMbps'', JNum 1000), (''IPv4StaticAddresses'', JList []),
     (''IPv6StaticAddresses'', JList [JStr ''fe80::1'']), (''HostName'', JStr ''ilo'')]"

text \<open>
  Network interfaces with a protocol block: with its mirror under \<^verbatim>\<open>Oem.Hpe\<close>, without
  any, and with a \<^verbatim>\<open>null\<close> in the place of the vendor mapping.
\<close>

definition nic_dns :: dict where
  "nic_dns = [(''@odata.type'', JStr ''EthernetInterface.''),
     (''IPv4'', JDict [(''DNSServers'', JList [JStr ''10.0.0.1'']), (''Gateway'', JStr ''10.0.0.254'')]),
     (''Oem'', JDict [(''Hpe'', JDict
        [(''IPv4'', JDict [(''DNSServers'', JList [JStr ''10.0.0.1'']), (''DDNS'', JBool True)])])])]"

definition nic_no_mirror :: dict where
  "nic_no_mirror = [(''@odata.type'', JStr ''EthernetInterface.''),
     (''IPv4'', JDict [(''DNSServers'', JList [JStr ''10.0.0.1''])])]"

definition nic_null_mirror :: dict where
  "nic_null_mirror = [(''@odata.type'', JStr ''EthernetInterface.''),
     (''IPv4'', JDict [(''DNSServers'', JList [JStr ''10.0.0.1''])]),
     (''Oem'', JDict [(''Hpe'', JNull)])]"

text \<open>
  A network interface whose \<^verbatim>\<open>IPv6\<close> block has no mirror: the vendor mapping mirrors
  \<^verbatim>\<open>IPv4\<close> only.
\<close>

definition nic_v6 :: dict where
  "nic_v6 = [(''@odata.id'', JStr ''/redfish/v1/Managers/1/EthernetInterfaces/1''),
     (''@odata.type'', JStr ''EthernetInterface.''),
     (''IPv6'', JDict [(''UseDNSServers'', JBool True)]),
     (''Oem'', JDict [(''Hpe'', JDict [(''IPv4'', JDict [(''UseDNSServers'', JBool True)])])])]"

text \<open>
  Records of the older interface, whose identity key is \<^verbatim>\<open>href\<close>: at top level, under
  \<^verbatim>\<open>links/self\<close>, and nowhere.
\<close>

definition legacy_top :: dict where
  "legacy_top = [(''href'', JStr ''/rest/v1/Systems/1''), (''Type'', JStr ''ComputerSystem.''),
     (''AssetTag'', JStr ''lab'')]"

definition legacy_links :: dict where
  "legacy_links = [(''links'', JDict [(''self'', JDict [(''href'', JStr ''/rest/v1/Chassis/1'')])]),
     (''Type'', JStr ''Chassis.''), (''AssetTag'', JStr ''lab'')]"

definition no_identity :: dict where
  "no_identity = [(''Type'', JStr ''Chassis.''), (''AssetTag'', JStr ''lab'')]"





section \<open>Basic facts\<close>

subsection \<open>The exception monad and the dictionary primitives\<close>

lemma bindE_simps [simp]: "bindE (Inl e) f = Inl e" "bindE (Inr x) f = f x"
  by (simp_all add: bindE_def)

lemma bindE_Inr_iff: "bindE m f = Inr y \<longleftrightarrow> (\<exists>x. m = Inr x \<and> f x = Inr y)"
  by (cases m) simp_all

lemma bindE_Inl_iff: "bindE m f = Inl e \<longleftrightarrow> m = Inl e \<or> (\<exists>x. m = Inr x \<and> f x = Inl e)"
  by (cases m) simp_all

lemma getitem_Inr_iff: "getitem d k = Inr v \<longleftrightarrow> map_of d k = Some v"
  by (simp add: getitem_def split: option.splits)

lemma getitem_Inl_iff: "getitem d k = Inl e \<longleftrightarrow> map_of d k = None \<and> e = KeyError"
  by (auto simp add: getitem_def split: option.splits)

lemma del_key_Inr_iff: "del_key k d = Inr d' \<longleftrightarrow> k \<in> fst ` set d \<and> d' = AList.delete k d"
  by (auto simp: del_key_def)

lemma del_key_Inl_iff: "del_key k d = Inl e \<longleftrightarrow> k \<notin> fst ` set d \<and> e = KeyError"
  by (auto simp: del_key_def)

lemma map_of_None_iff: "map_of d k = None \<longleftrightarrow> k \<notin> fst ` set d"
  by (simp add: map_of_eq_None_iff)

lemma del_path_Cons_iff:
  "del_path d (k # k' # ks) = Inr d' \<longleftrightarrow>
     (\<exists>d1 d2. map_of d k = Some (JDict d1) \<and> del_path d1 (k' # ks) = Inr d2 \<and>
        d' = AList.update k (JDict d2) d)"
proof (cases "map_of d k")
  case None
  then show ?thesis by (simp add: getitem_def)
next
  case (Some v)
  then show ?thesis by (cases v) (auto simp: getitem_def bindE_Inr_iff)
qed

lemma get_path_Cons:
  "get_path d (k # k' # ks) = Some v \<longleftrightarrow>
     (\<exists>d1. map_of d k = Some (JDict d1) \<and> get_path d1 (k' # ks) = Some v)"
  by (auto split: option.splits json.splits)

lemma get_path_Cons_None:
  "get_path d (k # k' # ks) = None \<longleftrightarrow>
     (\<forall>d1. map_of d k = Some (JDict d1) \<longrightarrow> get_path d1 (k' # ks) = None)"
  by (auto split: option.splits json.splits)

lemma del_path_absent:
  "del_path d p = Inr d' \<Longrightarrow> p \<noteq> [] \<Longrightarrow> get_path d' p = None"
proof (induction d p arbitrary: d' rule: del_path.induct)
  case (1 d)
  then show ?case by simp
next
  case (2 d k)
  then show ?case by (simp add: del_key_Inr_iff delete_conv')
next
  case (3 d k v va)
  from "3.prems" obtain d1 d2 where *: "map_of d k = Some (JDict d1)"
    "del_path d1 (v # va) = Inr d2" "d' = AList.update k (JDict d2) d"
    unfolding del_path_Cons_iff by blast
  from * have gi: "getitem d k = Inr (JDict d1)" by (simp add: getitem_def)
  have "get_path d2 (v # va) = None"
    using "3.IH" [OF *(2)] by simp
  with * show ?case by (simp add: update_conv')
qed

lemma del_path_present:
  "del_path d p = Inr d' \<Longrightarrow> p \<noteq> [] \<Longrightarrow> get_path d p \<noteq> None"
proof (induction d p arbitrary: d' rule: del_path.induct)
  case (1 d)
  then show ?case by simp
next
  case (2 d k)
  then show ?case by (auto simp add: del_key_Inr_iff map_of_None_iff)
next
  case (3 d k v va)
  from "3.prems" obtain d1 d2 where *: "map_of d k = Some (JDict d1)"
    "del_path d1 (v # va) = Inr d2" "d' = AList.update k (JDict d2) d"
    unfolding del_path_Cons_iff by blast
  from * have gi: "getitem d k = Inr (JDict d1)" by (simp add: getitem_def)
  have "get_path d1 (v # va) \<noteq> None"
    using "3.IH" [OF *(2)] by simp
  with * show ?case by simp
qed

lemma del_path_mono:
  "del_path d p = Inr d' \<Longrightarrow> get_path d q = None \<Longrightarrow> get_path d' q = None"
proof (induction d p arbitrary: d' q rule: del_path.induct)
  case (1 d)
  then show ?case by simp
next
  case (2 d k)
  then show ?case
    by (cases "(d, q)" rule: get_path.cases)
      (auto simp add: del_key_Inr_iff delete_conv' split: option.splits json.splits)
next
  case (3 d k v va)
  from "3.prems" obtain d1 d2 where *: "map_of d k = Some (JDict d1)"
    "del_path d1 (v # va) = Inr d2" "d' = AList.update k (JDict d2) d"
    unfolding del_path_Cons_iff by blast
  from * have gi: "getitem d k = Inr (JDict d1)" by (simp add: getitem_def)
  have IH: "get_path d1 r = None \<Longrightarrow> get_path d2 r = None" for r
    using "3.IH" [OF *(2)] by simp
  show ?case
  proof (cases "(d, q)" rule: get_path.cases)
    case (1 d0)
    with "3.prems" show ?thesis by simp
  next
    case (2 d0 j)
    with "3.prems" * show ?thesis by (auto simp: update_conv')
  next
    case (3 d0 j j' js)
    with "3.prems" * IH [of "j' # js"] show ?thesis
      by (auto simp: update_conv' get_path_Cons_None)
  qed
qed

lemma del_path_frame:
  "del_path d p = Inr d' \<Longrightarrow> \<not> prefix p q \<Longrightarrow> \<not> prefix q p \<Longrightarrow> get_path d' q = get_path d q"
proof (induction d p arbitrary: d' q rule: del_path.induct)
  case (1 d)
  then show ?case by simp
next
  case (2 d k)
  then show ?case
    by (cases "(d, q)" rule: get_path.cases)
      (auto simp add: del_key_Inr_iff delete_conv' split: option.splits json.splits)
next
  case (3 d k v va)
  from "3.prems" obtain d1 d2 where *: "map_of d k = Some (JDict d1)"
    "del_path d1 (v # va) = Inr d2" "d' = AList.update k (JDict d2) d"
    unfolding del_path_Cons_iff by blast
  from * have gi: "getitem d k = Inr (JDict d1)" by (simp add: getitem_def)
  have IH: "\<not> prefix (v # va) r \<Longrightarrow> \<not> prefix r (v # va) \<Longrightarrow> get_path d2 r = get_path d1 r" for r
    using "3.IH" [OF *(2)] by simp
  show ?case
  proof (cases "(d, q)" rule: get_path.cases)
    case (1 d0)
    with "3.prems" show ?thesis by simp
  next
    case (2 d0 j)
    with "3.prems" * show ?thesis by (auto simp: update_conv')
  next
    case (3 d0 j j' js)
    with "3.prems" * IH [of "j' # js"] show ?thesis
      by (auto simp: update_conv')
  qed
qed

lemma del_path_map_of:
  assumes "del_path d (k # ks) = Inr d'" "j \<noteq> k"
  shows "map_of d' j = map_of d j"
proof (cases ks)
  case Nil
  with assms show ?thesis by (auto simp: del_key_Inr_iff delete_conv')
next
  case (Cons k' ks')
  with assms show ?thesis unfolding Cons del_path_Cons_iff by (auto simp: update_conv')
qed

lemma del_path_keys:
  assumes "del_path d p = Inr d'"
  shows "fst ` set d' \<subseteq> fst ` set d"
proof (cases "(d, p)" rule: del_path.cases)
  case (1 d0)
  with assms show ?thesis by simp
next
  case (2 d0 k)
  with assms show ?thesis by (auto simp: del_key_Inr_iff AList.delete_eq)
next
  case (3 d0 k v va)
  with assms have "del_path d (k # v # va) = Inr d'" by simp
  then obtain d1 d2 where "map_of d k = Some (JDict d1)" "d' = AList.update k (JDict d2) d"
    unfolding del_path_Cons_iff by blast
  then show ?thesis
    by (auto simp: dom_update dest!: map_of_SomeD) (metis fst_conv image_eqI)
qed

subsection \<open>The steps of the redaction loop\<close>

declare del_path.simps [simp del]

lemma map_of_Some_key: "map_of d k = Some v \<Longrightarrow> k \<in> fst ` set d"
  by (metis map_of_eq_None_iff option.distinct(1))

lemma keys_delete: "fst ` set (AList.delete k d) = fst ` set d - {k}"
  by (induction d) auto

lemma get_path_delete_mono:
  "get_path d q = None \<Longrightarrow> get_path (AList.delete k d) q = None"
  by (cases "(d, q)" rule: get_path.cases)
     (auto simp: delete_conv' split: option.splits json.splits)

lemma take_type_Inr_iff:
  "take_type ts p k s = Inr s' \<longleftrightarrow>
     (if k = ts then \<exists>v. map_of (vals s) k = Some v \<and>
         s' = \<lparr>vals = AList.delete k (vals s), typeselector = v, pathselector = p\<rparr>
      else s' = s)"
  by (auto simp: take_type_def bindE_Inr_iff getitem_Inr_iff del_key_Inr_iff map_of_Some_key)

lemma drop_always_Inr_iff:
  "drop_always k d = Inr d' \<longleftrightarrow>
     (if k \<in> set always_drop then k \<in> fst ` set d \<and> d' = AList.delete k d else d' = d)"
  by (auto simp: drop_always_def del_key_Inr_iff)

lemma drop_static_Inr_iff:
  "drop_static k d = Inr d' \<longleftrightarrow>
     (if k \<in> set static_lists
      then \<exists>v. map_of d k = Some v \<and> d' = (if truthy v then AList.delete k d else d)
      else d' = d)"
proof (cases "k \<in> set static_lists")
  case False
  then show ?thesis by (auto simp: drop_static_def)
next
  case True
  show ?thesis
  proof (cases "map_of d k")
    case None
    with True show ?thesis by (simp add: drop_static_def getitem_def)
  next
    case (Some v)
    with True map_of_Some_key [OF Some] show ?thesis
      by (cases "truthy v") (auto simp: drop_static_def getitem_def del_key_def)
  qed
qed

lemma scrub_Inr_iff:
  "scrub k f d = Inr d' \<longleftrightarrow>
     (\<exists>blk. map_of d k = Some blk \<and>
        (py_in f blk = Inr False \<and> d' = d \<or>
         py_in f blk = Inr True \<and>
           (\<exists>d1. del_path d [k, f] = Inr d1 \<and> del_path d1 [''Oem'', ''Hpe'', k, f] = Inr d')))"
proof (cases "map_of d k")
  case None
  then show ?thesis by (simp add: scrub_def getitem_def)
next
  case (Some blk)
  show ?thesis
  proof (cases "py_in f blk")
    case (Inl e)
    with Some show ?thesis by (simp add: scrub_def getitem_def)
  next
    case (Inr present)
    show ?thesis
    proof (cases present)
      case True
      with Some Inr show ?thesis by (simp add: scrub_def getitem_def bindE_Inr_iff)
    next
      case False
      with Some Inr show ?thesis by (auto simp add: scrub_def getitem_def)
    qed
  qed
qed

lemma drop_dns_Inr_iff:
  "drop_dns k d = Inr d' \<longleftrightarrow>
     (if k \<in> set dns_blocks
      then \<exists>d1. scrub k ''DNSServers'' d = Inr d1 \<and> scrub k ''UseDNSServers'' d1 = Inr d'
      else d' = d)"
  by (auto simp: drop_dns_def bindE_Inr_iff)

lemma step_Inr_iff:
  "step ts p k s = Inr s' \<longleftrightarrow>
     (\<exists>s1 d2 d3 d4. take_type ts p k s = Inr s1 \<and> drop_always k (vals s1) = Inr d2 \<and>
        drop_static k d2 = Inr d3 \<and> drop_dns k d3 = Inr d4 \<and> s' = s1\<lparr>vals := d4\<rparr>)"
  unfolding step_def bindE_Inr_iff by auto

lemma shrinks_refl: "shrinks d d"
  by (simp add: shrinks_def)

lemma shrinks_trans: "shrinks a b \<Longrightarrow> shrinks b c \<Longrightarrow> shrinks a c"
  by (simp add: shrinks_def)

lemma shrinks_absent: "shrinks d d' \<Longrightarrow> get_path d q = None \<Longrightarrow> get_path d' q = None"
  by (simp add: shrinks_def)

lemma shrinks_keys:
  assumes "shrinks d d'"
  shows "fst ` set d' \<subseteq> fst ` set d"
proof
  fix k assume "k \<in> fst ` set d'"
  then have "get_path d' [k] \<noteq> None" by (simp add: map_of_None_iff)
  with shrinks_absent [OF assms, of "[k]"] have "get_path d [k] \<noteq> None" by fastforce
  then show "k \<in> fst ` set d" by (simp add: map_of_None_iff)
qed

lemma shrinks_delete: "shrinks d (AList.delete k d)"
  by (simp add: shrinks_def get_path_delete_mono)

lemma shrinks_del_path: "del_path d p = Inr d' \<Longrightarrow> shrinks d d'"
  using del_path_mono by (simp add: shrinks_def)

lemma shrinks_scrub: "scrub k f d = Inr d' \<Longrightarrow> shrinks d d'"
  unfolding scrub_Inr_iff
  by (blast intro: shrinks_refl shrinks_trans [OF shrinks_del_path shrinks_del_path])

lemma shrinks_drop_dns: "drop_dns k d = Inr d' \<Longrightarrow> shrinks d d'"
  unfolding drop_dns_Inr_iff
  by (cases "k \<in> set dns_blocks")
     (auto intro: shrinks_refl shrinks_trans [OF shrinks_scrub shrinks_scrub])

lemma shrinks_drop_static: "drop_static k d = Inr d' \<Longrightarrow> shrinks d d'"
  by (auto simp: drop_static_Inr_iff split: if_splits intro: shrinks_refl shrinks_delete)

lemma shrinks_drop_always: "drop_always k d = Inr d' \<Longrightarrow> shrinks d d'"
  by (auto simp: drop_always_Inr_iff split: if_splits intro: shrinks_refl shrinks_delete)

lemma shrinks_take_type: "take_type ts p k s = Inr s' \<Longrightarrow> shrinks (vals s) (vals s')"
  by (auto simp: take_type_Inr_iff split: if_splits intro: shrinks_refl shrinks_delete)

lemma shrinks_step:
  assumes "step ts p k s = Inr s'"
  shows "shrinks (vals s) (vals s')"
proof -
  from assms obtain s1 d2 d3 d4 where *: "take_type ts p k s = Inr s1"
    "drop_always k (vals s1) = Inr d2" "drop_static k d2 = Inr d3" "drop_dns k d3 = Inr d4"
    "s' = s1\<lparr>vals := d4\<rparr>"
    unfolding step_Inr_iff by blast
  have "shrinks (vals s) d4"
    using shrinks_take_type [OF *(1)] shrinks_drop_always [OF *(2)]
      shrinks_drop_static [OF *(3)] shrinks_drop_dns [OF *(4)]
    by (blast intro: shrinks_trans)
  with * show ?thesis by simp
qed

lemma shrinks_run_keys: "run_keys ts p ks s = Inr s' \<Longrightarrow> shrinks (vals s) (vals s')"
proof (induction ks arbitrary: s)
  case Nil
  then show ?case by (simp add: shrinks_refl)
next
  case (Cons k ks)
  from Cons.prems obtain s1 where "step ts p k s = Inr s1" "run_keys ts p ks s1 = Inr s'"
    by (auto simp: bindE_Inr_iff)
  then show ?case using Cons.IH shrinks_step by (blast intro: shrinks_trans)
qed

subsection \<open>The loop over the keys\<close>

lemma lists_disjoint:
  "k \<in> set always_drop \<Longrightarrow> k \<notin> set static_lists"
  "k \<in> set always_drop \<Longrightarrow> k \<notin> set dns_blocks"
  "k \<in> set static_lists \<Longrightarrow> k \<notin> set dns_blocks"
  "k \<in> set dns_blocks \<Longrightarrow> k \<noteq> ''Oem''"
  by (auto simp: always_drop_def static_lists_def dns_blocks_def)

lemma run_keys_append:
  "run_keys ts p (ks1 @ ks2) s = bindE (run_keys ts p ks1 s) (run_keys ts p ks2)"
proof (induction ks1 arbitrary: s)
  case Nil
  show ?case by simp
next
  case (Cons k ks1)
  show ?case by (cases "step ts p k s") (simp_all add: Cons.IH)
qed

lemma run_keys_invariant:
  assumes "run_keys ts p ks s = Inr s'" and "Q s"
    and "\<And>j a b. step ts p j a = Inr b \<Longrightarrow> Q a \<Longrightarrow> Q b"
  shows "Q s'"
  using assms(1,2)
proof (induction ks arbitrary: s)
  case Nil
  then show ?case by simp
next
  case (Cons k ks)
  from Cons.prems(1) obtain s1 where "step ts p k s = Inr s1" "run_keys ts p ks s1 = Inr s'"
    by (auto simp: bindE_Inr_iff)
  with Cons.IH [of s1] assms(3) [of k s s1] Cons.prems(2) show ?case by simp
qed

lemma run_keys_establish:
  assumes "run_keys ts p ks s = Inr s'" and "k \<in> set ks"
    and "\<And>a b. step ts p k a = Inr b \<Longrightarrow> Q b"
    and "\<And>j a b. step ts p j a = Inr b \<Longrightarrow> Q a \<Longrightarrow> Q b"
  shows "Q s'"
proof -
  from assms(2) obtain ks1 ks2 where ks: "ks = ks1 @ k # ks2" by (auto simp: in_set_conv_decomp)
  with assms(1) obtain s1 s2 where "run_keys ts p ks1 s = Inr s1" "step ts p k s1 = Inr s2"
    "run_keys ts p ks2 s2 = Inr s'"
    by (auto simp: run_keys_append bindE_Inr_iff)
  with assms(3) [of s1 s2] run_keys_invariant [of ts p ks2 s2 s' Q] assms(4) show ?thesis
    by blast
qed

text \<open>Frame: a step at \<open>j\<close> leaves the value found under another key alone.\<close>

lemma scrub_frame:
  assumes "scrub j f d = Inr d'" "k \<noteq> j" "k \<noteq> ''Oem''"
  shows "map_of d' k = map_of d k"
proof -
  from assms(1) consider "d' = d"
    | d1 where "del_path d [j, f] = Inr d1" "del_path d1 [''Oem'', ''Hpe'', j, f] = Inr d'"
    unfolding scrub_Inr_iff by blast
  then show ?thesis
  proof cases
    case 1
    then show ?thesis by simp
  next
    case 2
    with assms(2,3) show ?thesis by (simp add: del_path_map_of)
  qed
qed

lemma drop_dns_frame:
  assumes "drop_dns j d = Inr d'" "k \<noteq> j" "k \<noteq> ''Oem'' \<or> j \<notin> set dns_blocks"
  shows "map_of d' k = map_of d k"
proof (cases "j \<in> set dns_blocks")
  case True
  with assms(1) obtain d1 where "scrub j ''DNSServers'' d = Inr d1"
    "scrub j ''UseDNSServers'' d1 = Inr d'"
    by (auto simp: drop_dns_Inr_iff)
  with assms(2,3) True show ?thesis by (simp add: scrub_frame)
next
  case False
  with assms(1) show ?thesis by (simp add: drop_dns_Inr_iff)
qed

lemma drop_static_frame:
  assumes "drop_static j d = Inr d'" "k \<noteq> j"
  shows "map_of d' k = map_of d k"
  using assms by (auto simp: drop_static_Inr_iff delete_conv' split: if_splits)

lemma drop_always_frame:
  assumes "drop_always j d = Inr d'" "k \<noteq> j"
  shows "map_of d' k = map_of d k"
  using assms by (auto simp: drop_always_Inr_iff delete_conv' split: if_splits)

lemma take_type_frame:
  assumes "take_type ts p j s = Inr s'" "k \<noteq> j"
  shows "map_of (vals s') k = map_of (vals s) k"
  using assms by (auto simp: take_type_Inr_iff delete_conv' split: if_splits)

lemma step_frame:
  assumes "step ts p j s = Inr s'" "k \<noteq> j" "k \<noteq> ''Oem'' \<or> j \<notin> set dns_blocks"
  shows "map_of (vals s') k = map_of (vals s) k"
proof -
  from assms(1) obtain s1 d2 d3 d4 where *: "take_type ts p j s = Inr s1"
    "drop_always j (vals s1) = Inr d2" "drop_static j d2 = Inr d3" "drop_dns j d3 = Inr d4"
    "s' = s1\<lparr>vals := d4\<rparr>"
    unfolding step_Inr_iff by blast
  have "map_of d4 k = map_of d3 k" using drop_dns_frame [OF *(4) assms(2,3)] .
  also have "\<dots> = map_of d2 k" using drop_static_frame [OF *(3) assms(2)] .
  also have "\<dots> = map_of (vals s1) k" using drop_always_frame [OF *(2) assms(2)] .
  also have "\<dots> = map_of (vals s) k" using take_type_frame [OF *(1) assms(2)] .
  finally show ?thesis using *(5) by simp
qed

text \<open>What a successful step does to its own key.\<close>

lemma step_own_gone:
  assumes "step ts p k s = Inr s'" "k = ts \<or> k \<in> set always_drop"
  shows "k \<notin> fst ` set (vals s')"
proof -
  from assms(1) obtain s1 d2 d3 d4 where *: "take_type ts p k s = Inr s1"
    "drop_always k (vals s1) = Inr d2" "drop_static k d2 = Inr d3" "drop_dns k d3 = Inr d4"
    "s' = s1\<lparr>vals := d4\<rparr>"
    unfolding step_Inr_iff by blast
  have "k \<notin> fst ` set d2"
  proof (cases "k \<in> set always_drop")
    case True
    with *(2) have "d2 = AList.delete k (vals s1)" by (simp add: drop_always_Inr_iff)
    then have "fst ` set d2 = fst ` set (vals s1) - {k}" by (simp add: keys_delete)
    then show ?thesis by simp
  next
    case False
    with assms(2) have "k = ts" by simp
    with *(1) obtain v where "s1 = \<lparr>vals = AList.delete k (vals s), typeselector = v,
        pathselector = p\<rparr>"
      by (auto simp: take_type_Inr_iff)
    then have "fst ` set (vals s1) = fst ` set (vals s) - {k}" by (simp add: keys_delete)
    then have "k \<notin> fst ` set (vals s1)" by simp
    with *(2) False show ?thesis by (simp add: drop_always_Inr_iff)
  qed
  moreover have "shrinks d2 d4"
    using shrinks_trans [OF shrinks_drop_static [OF *(3)] shrinks_drop_dns [OF *(4)]] .
  then have "fst ` set d4 \<subseteq> fst ` set d2" by (rule shrinks_keys)
  ultimately have "k \<notin> fst ` set d4" by (meson subsetD)
  with *(5) show ?thesis by simp
qed

lemma step_static:
  assumes "step ts p k s = Inr s'" "k \<in> set static_lists"
  shows "\<exists>v. map_of (vals s) k = Some v \<and> k \<noteq> ts \<and>
           vals s' = (if truthy v then AList.delete k (vals s) else vals s)"
proof -
  from assms(1) obtain s1 d2 d3 d4 where *: "take_type ts p k s = Inr s1"
    "drop_always k (vals s1) = Inr d2" "drop_static k d2 = Inr d3" "drop_dns k d3 = Inr d4"
    "s' = s1\<lparr>vals := d4\<rparr>"
    unfolding step_Inr_iff by blast
  from assms(2) have nd: "k \<notin> set always_drop" "k \<notin> set dns_blocks"
    using lists_disjoint by blast+
  from *(2) nd have d2: "d2 = vals s1" by (simp add: drop_always_Inr_iff)
  from *(4) nd have d4: "d4 = d3" by (simp add: drop_dns_Inr_iff)
  from *(3) assms(2) d2 obtain v where v: "map_of (vals s1) k = Some v"
    "d3 = (if truthy v then AList.delete k (vals s1) else vals s1)"
    by (auto simp: drop_static_Inr_iff)
  have "k \<noteq> ts"
  proof
    assume "k = ts"
    with *(1) have "map_of (vals s1) k = None" by (auto simp: take_type_Inr_iff delete_conv')
    with v show False by simp
  qed
  with *(1) have "s1 = s" by (simp add: take_type_Inr_iff)
  with v d4 *(5) \<open>k \<noteq> ts\<close> show ?thesis by simp
qed

lemma step_block:
  assumes "step ts p k s = Inr s'" "k \<in> set dns_blocks"
  shows "k \<noteq> ts \<and> drop_dns k (vals s) = Inr (vals s')"
proof -
  from assms(1) obtain s1 d2 d3 d4 where *: "take_type ts p k s = Inr s1"
    "drop_always k (vals s1) = Inr d2" "drop_static k d2 = Inr d3" "drop_dns k d3 = Inr d4"
    "s' = s1\<lparr>vals := d4\<rparr>"
    unfolding step_Inr_iff by blast
  from assms(2) have nd: "k \<notin> set always_drop" "k \<notin> set static_lists"
    using lists_disjoint by blast+
  from *(2) nd have d2: "d2 = vals s1" by (simp add: drop_always_Inr_iff)
  from *(3) nd have d3: "d3 = d2" by (simp add: drop_static_Inr_iff)
  from *(4) assms(2) obtain blk where "map_of d3 k = Some blk"
    by (auto simp: drop_dns_Inr_iff scrub_Inr_iff)
  with d2 d3 have blk: "map_of (vals s1) k \<noteq> None" by simp
  have "k \<noteq> ts"
  proof
    assume "k = ts"
    with *(1) have "map_of (vals s1) k = None" by (auto simp: take_type_Inr_iff delete_conv')
    with blk show False by simp
  qed
  with *(1) have "s1 = s" by (simp add: take_type_Inr_iff)
  with d2 d3 *(4,5) \<open>k \<noteq> ts\<close> show ?thesis by simp
qed

subsection \<open>Gathering the passes\<close>

lemma add_save_file_header_eq:
  "add_save_file_header headers contents = Header headers # map Entry contents"
proof -
  have "foldl (\<lambda>templist content. templist @ [Entry content]) acc contents
          = acc @ map Entry contents" for acc
    by (induction contents arbitrary: acc) simp_all
  then show ?thesis by (simp add: add_save_file_header_def)
qed

lemma multisave_loop_ok:
  "map (saveworkerfunction h t) batches = map Inr passes \<Longrightarrow>
   multisave_loop h t contents batches = Inr (contents @ concat passes)"
proof (induction batches arbitrary: contents passes)
  case Nil
  then show ?case by simp
next
  case (Cons b bs)
  then obtain q qs where "passes = q # qs" by (cases passes) auto
  with Cons show ?case by simp
qed

lemma gather_ok:
  assumes "map (saveworkerfunction h t) (primary # multisave) = map Inr passes"
  shows "gather h t primary multisave = Inr (concat passes)"
proof -
  from assms obtain q qs where ps: "passes = q # qs" by (cases passes) auto
  with assms have "saveworkerfunction h t primary = Inr q"
    "map (saveworkerfunction h t) multisave = map Inr qs" by simp_all
  then show ?thesis using ps by (simp add: gather_def multisave_loop_ok)
qed

lemma multisave_loop_fails:
  "\<exists>b \<in> set batches. \<exists>e. saveworkerfunction h t b = Inl e \<Longrightarrow>
   \<exists>e. multisave_loop h t contents batches = Inl e"
proof (induction batches arbitrary: contents)
  case Nil
  then show ?case by simp
next
  case (Cons b bs)
  show ?case
  proof (cases "saveworkerfunction h t b")
    case (Inl e)
    then show ?thesis by simp
  next
    case (Inr c)
    with Cons.prems have "\<exists>b \<in> set bs. \<exists>e. saveworkerfunction h t b = Inl e" by auto
    from Cons.IH [OF this, of "contents @ c"] Inr show ?thesis by simp
  qed
qed

lemma gather_fails:
  assumes "\<exists>b \<in> set (primary # multisave). \<exists>e. saveworkerfunction h t b = Inl e"
  shows "\<exists>e. gather h t primary multisave = Inl e"
proof (cases "saveworkerfunction h t primary")
  case (Inl e)
  then show ?thesis by (simp add: gather_def)
next
  case (Inr c)
  with assms have "\<exists>b \<in> set multisave. \<exists>e. saveworkerfunction h t b = Inl e" by auto
  from multisave_loop_fails [OF this, of c] Inr show ?thesis by (simp add: gather_def)
qed

subsection \<open>What the redaction loop removes\<close>

lemma run_keys_gone:
  assumes "run_keys ts p (map fst values) s = Inr s'" "vals s = values"
    "k = ts \<or> k \<in> set always_drop"
  shows "k \<notin> fst ` set (vals s')"
proof (cases "k \<in> fst ` set values")
  case True
  then have "k \<in> set (map fst values)" by simp
  from run_keys_establish [OF assms(1) this, of "\<lambda>s. k \<notin> fst ` set (vals s)"]
  show ?thesis
    using step_own_gone [OF _ assms(3)] shrinks_keys [OF shrinks_step] by (meson subsetD)
next
  case False
  with shrinks_keys [OF shrinks_run_keys [OF assms(1)]] assms(2) show ?thesis by blast
qed

lemma static_not_oem: "k \<in> set static_lists \<Longrightarrow> k \<noteq> ''Oem''"
  by (auto simp: static_lists_def)

lemma step_static_falsy:
  assumes "step ts p j s = Inr s'" "k \<in> set static_lists" "map_of (vals s) k = Some v"
    "\<not> truthy v"
  shows "map_of (vals s') k = Some v"
proof (cases "j = k")
  case True
  with step_static [OF assms(1)] assms(2,3,4) show ?thesis by auto
next
  case False
  with step_frame [OF assms(1), of k] static_not_oem [OF assms(2)] assms(3) show ?thesis by simp
qed

lemma step_static_settled:
  assumes "step ts p j s = Inr s'" "k \<in> set static_lists"
    "j = k \<or> (\<forall>v. map_of (vals s) k = Some v \<longrightarrow> \<not> truthy v)"
  shows "\<forall>v. map_of (vals s') k = Some v \<longrightarrow> \<not> truthy v"
proof (cases "j = k")
  case True
  with step_static [OF assms(1)] assms(2) obtain v where
    "map_of (vals s) k = Some v" "vals s' = (if truthy v then AList.delete k (vals s) else vals s)"
    by auto
  then show ?thesis by (cases "truthy v") (simp_all add: delete_conv')
next
  case False
  with step_frame [OF assms(1), of k] static_not_oem [OF assms(2)] assms(3) show ?thesis by simp
qed

lemma run_keys_static:
  assumes "run_keys ts p (map fst values) s = Inr s'" "vals s = values"
    "k \<in> set static_lists" "map_of values k = Some v"
  shows "map_of (vals s') k = (if truthy v then None else Some v)"
proof (cases "truthy v")
  case False
  have "map_of (vals s') k = Some v"
    by (rule run_keys_invariant [OF assms(1), of "\<lambda>s. map_of (vals s) k = Some v"])
       (use assms False step_static_falsy in auto)
  with False show ?thesis by simp
next
  case True
  from assms(4) have "k \<in> set (map fst values)" by (simp add: map_of_Some_key)
  from run_keys_establish [OF assms(1) this,
      of "\<lambda>s. \<forall>v. map_of (vals s) k = Some v \<longrightarrow> \<not> truthy v"]
  have 1: "\<forall>v. map_of (vals s') k = Some v \<longrightarrow> \<not> truthy v"
    using step_static_settled [OF _ assms(3)] by blast
  have 2: "map_of (vals s') k = Some v \<or> map_of (vals s') k = None"
  proof (rule run_keys_invariant [OF assms(1),
        of "\<lambda>s. map_of (vals s) k = Some v \<or> map_of (vals s) k = None"])
    show "map_of (vals s) k = Some v \<or> map_of (vals s) k = None" using assms by simp
  next
    fix j a b assume st: "step ts p j a = Inr b"
      and a: "map_of (vals a) k = Some v \<or> map_of (vals a) k = None"
    show "map_of (vals b) k = Some v \<or> map_of (vals b) k = None"
    proof (cases "j = k")
      case True
      with step_static [OF st] assms(3) obtain w where
        "vals b = (if truthy w then AList.delete k (vals a) else vals a)" by auto
      with a show ?thesis by (cases "truthy w") (simp_all add: delete_conv')
    next
      case False
      with step_frame [OF st, of k] static_not_oem [OF assms(3)] a show ?thesis by simp
    qed
  qed
  from 1 2 True show ?thesis by auto
qed

subsection \<open>Where the entries come from\<close>




subsection \<open>Scrubbing the name-server fields\<close>

lemma get_path_cong:
  "map_of d k = map_of d' k \<Longrightarrow> get_path d (k # ks) = get_path d' (k # ks)"
  by (cases ks) simp_all

lemma get_path_block:
  "get_path d [b, f] \<noteq> None \<longleftrightarrow> (\<exists>x. map_of d b = Some (JDict x) \<and> f \<in> fst ` set x)"
proof (cases "map_of d b")
  case None
  then show ?thesis by simp
next
  case (Some v)
  then show ?thesis by (cases v) (simp_all add: map_of_None_iff)
qed

declare get_path.simps [simp del]

lemma scrub_effect:
  assumes "scrub b f d = Inr d'"
  shows "get_path d' [b, f] = None \<and>
         (get_path d [b, f] \<noteq> None \<longrightarrow> get_path d' [''Oem'', ''Hpe'', b, f] = None)"
proof -
  from assms obtain blk where blk: "map_of d b = Some blk" and
    c: "py_in f blk = Inr False \<and> d' = d \<or>
        py_in f blk = Inr True \<and> (\<exists>d1. del_path d [b, f] = Inr d1 \<and>
            del_path d1 [''Oem'', ''Hpe'', b, f] = Inr d')"
    unfolding scrub_Inr_iff by blast
  from c show ?thesis
  proof
    assume a: "py_in f blk = Inr False \<and> d' = d"
    have "get_path d [b, f] = None"
    proof (rule ccontr)
      assume "get_path d [b, f] \<noteq> None"
      then obtain x where "map_of d b = Some (JDict x)" "f \<in> fst ` set x"
        unfolding get_path_block by blast
      with blk a have "py_in f (JDict x) = Inr False" by simp
      with \<open>f \<in> fst ` set x\<close> show False by simp
    qed
    with a show ?thesis by simp
  next
    assume "py_in f blk = Inr True \<and> (\<exists>d1. del_path d [b, f] = Inr d1 \<and>
            del_path d1 [''Oem'', ''Hpe'', b, f] = Inr d')"
    then obtain d1 where d1: "del_path d [b, f] = Inr d1"
      "del_path d1 [''Oem'', ''Hpe'', b, f] = Inr d'" by blast
    from del_path_absent [OF d1(1)] have "get_path d1 [b, f] = None" by simp
    from del_path_mono [OF d1(2) this] del_path_absent [OF d1(2)] show ?thesis by simp
  qed
qed

lemma scrub_needs_mirror:
  assumes "scrub b f d = Inr d'" "get_path d [b, f] \<noteq> None"
  shows "get_path d [''Oem'', ''Hpe'', b, f] \<noteq> None"
proof -
  from assms(2) obtain x where x: "map_of d b = Some (JDict x)" "f \<in> fst ` set x"
    unfolding get_path_block by blast
  from assms(1) obtain blk where blk: "map_of d b = Some blk" and
    c: "py_in f blk = Inr False \<and> d' = d \<or>
        py_in f blk = Inr True \<and> (\<exists>d1. del_path d [b, f] = Inr d1 \<and>
            del_path d1 [''Oem'', ''Hpe'', b, f] = Inr d')"
    unfolding scrub_Inr_iff by blast
  from x blk have "py_in f blk = Inr True" by simp
  with c obtain d1 where d1: "del_path d [b, f] = Inr d1"
      "del_path d1 [''Oem'', ''Hpe'', b, f] = Inr d'"
    by auto
  from del_path_present [OF d1(2)] have "get_path d1 [''Oem'', ''Hpe'', b, f] \<noteq> None" by simp
  with del_path_mono [OF d1(1), of "[''Oem'', ''Hpe'', b, f]"] show ?thesis by auto
qed

lemma scrub_other:
  assumes "scrub b g d = Inr d'" "g \<noteq> f" "b \<noteq> ''Oem''"
  shows "get_path d' [b, f] = get_path d [b, f]"
proof -
  from assms(1) consider "d' = d"
    | d1 where "del_path d [b, g] = Inr d1" "del_path d1 [''Oem'', ''Hpe'', b, g] = Inr d'"
    unfolding scrub_Inr_iff by blast
  then show ?thesis
  proof cases
    case 1
    then show ?thesis by simp
  next
    case 2
    from del_path_frame [OF 2(1), of "[b, f]"] assms(2)
    have "get_path d1 [b, f] = get_path d [b, f]" by simp
    moreover from del_path_frame [OF 2(2), of "[b, f]"] assms(3)
    have "get_path d' [b, f] = get_path d1 [b, f]" by simp
    ultimately show ?thesis by simp
  qed
qed

lemma drop_dns_effect:
  assumes "drop_dns b d = Inr d'" "b \<in> set dns_blocks"
    "f = ''DNSServers'' \<or> f = ''UseDNSServers''"
  shows "get_path d' [b, f] = None \<and>
         (get_path d [b, f] \<noteq> None \<longrightarrow> get_path d' [''Oem'', ''Hpe'', b, f] = None)"
proof -
  from assms(1,2) obtain d1 where d1: "scrub b ''DNSServers'' d = Inr d1"
    "scrub b ''UseDNSServers'' d1 = Inr d'"
    by (auto simp: drop_dns_Inr_iff)
  from assms(2) have oem: "b \<noteq> ''Oem''" by (rule lists_disjoint)
  from assms(3) show ?thesis
  proof
    assume f: "f = ''DNSServers''"
    from scrub_effect [OF d1(1)] shrinks_absent [OF shrinks_scrub [OF d1(2)]] f
    show ?thesis by simp
  next
    assume f: "f = ''UseDNSServers''"
    from scrub_other [OF d1(1) _ oem, of f] f
    have "get_path d1 [b, f] = get_path d [b, f]" by simp
    with scrub_effect [OF d1(2)] f show ?thesis by simp
  qed
qed

lemma drop_dns_needs_mirror:
  assumes "drop_dns b d = Inr d'" "b \<in> set dns_blocks"
    "f = ''DNSServers'' \<or> f = ''UseDNSServers''" "get_path d [b, f] \<noteq> None"
  shows "get_path d [''Oem'', ''Hpe'', b, f] \<noteq> None"
proof -
  from assms(1,2) obtain d1 where d1: "scrub b ''DNSServers'' d = Inr d1"
    "scrub b ''UseDNSServers'' d1 = Inr d'"
    by (auto simp: drop_dns_Inr_iff)
  from assms(2) have oem: "b \<noteq> ''Oem''" by (rule lists_disjoint)
  from assms(3) show ?thesis
  proof
    assume f: "f = ''DNSServers''"
    with scrub_needs_mirror [OF d1(1)] assms(4) show ?thesis by simp
  next
    assume f: "f = ''UseDNSServers''"
    from scrub_other [OF d1(1) _ oem, of f] f assms(4)
    have "get_path d1 [b, f] \<noteq> None" by simp
    with scrub_needs_mirror [OF d1(2)] f
    have "get_path d1 [''Oem'', ''Hpe'', b, f] \<noteq> None" by simp
    with shrinks_absent [OF shrinks_scrub [OF d1(1)], of "[''Oem'', ''Hpe'', b, f]"]
    show ?thesis by auto
  qed
qed

lemma step_other_block:
  assumes "step ts p j s = Inr s'" "b \<in> set dns_blocks" "j \<noteq> b"
  shows "get_path (vals s') [b, f] = get_path (vals s) [b, f]"
proof -
  from assms(2) have "b \<noteq> ''Oem''" by (rule lists_disjoint)
  then have "b \<noteq> ''Oem'' \<or> j \<notin> set dns_blocks" ..
  moreover from assms(3) have "b \<noteq> j" by blast
  ultimately have "map_of (vals s') b = map_of (vals s) b"
    by (rule step_frame [OF assms(1), rotated])
  then show ?thesis by (rule get_path_cong)
qed

lemma run_keys_scrubbed:
  assumes run: "run_keys ts p (map fst values) s = Inr s'" and s: "vals s = values"
    and b: "b \<in> set dns_blocks" and f: "f = ''DNSServers'' \<or> f = ''UseDNSServers''"
    and present: "get_path values [b, f] \<noteq> None"
  shows "get_path (vals s') [b, f] = None \<and> get_path (vals s') [''Oem'', ''Hpe'', b, f] = None"
proof -
  let ?M = "[''Oem'', ''Hpe'', b, f]"
  from present obtain x where "map_of values b = Some (JDict x)"
    unfolding get_path_block by blast
  then have "b \<in> set (map fst values)" by (simp add: map_of_Some_key)
  from run_keys_establish [OF run this, of "\<lambda>s. get_path (vals s) [b, f] = None"]
  have 1: "get_path (vals s') [b, f] = None"
    using drop_dns_effect [OF _ b f] step_block [OF _ b] shrinks_absent [OF shrinks_step]
    by blast
  have 2: "get_path (vals s') [b, f] = None \<longrightarrow> get_path (vals s') ?M = None"
  proof (rule run_keys_invariant [OF run,
        of "\<lambda>s. get_path (vals s) [b, f] = None \<longrightarrow> get_path (vals s) ?M = None"])
    show "get_path (vals s) [b, f] = None \<longrightarrow> get_path (vals s) ?M = None"
      using s present by blast
  next
    fix j x y assume st: "step ts p j x = Inr y"
      and inv: "get_path (vals x) [b, f] = None \<longrightarrow> get_path (vals x) ?M = None"
    show "get_path (vals y) [b, f] = None \<longrightarrow> get_path (vals y) ?M = None"
    proof (cases "j = b")
      case True
      with step_block [OF st] b have dd: "drop_dns b (vals x) = Inr (vals y)" by simp
      show ?thesis
      proof (cases "get_path (vals x) [b, f] = None")
        case True
        with inv shrinks_absent [OF shrinks_step [OF st]] show ?thesis by simp
      next
        case False
        with drop_dns_effect [OF dd b f] show ?thesis by simp
      qed
    next
      case False
      with step_other_block [OF st b, of f] inv shrinks_absent [OF shrinks_step [OF st]]
      show ?thesis by simp
    qed
  qed
  from 1 2 show ?thesis by simp
qed

subsection \<open>The exceptions of the redaction loop\<close>

lemma py_only_Inr [simp]: "py_only (Inr x)"
  by (simp add: py_only_def)

lemma py_only_Inl [simp]: "py_only (Inl e) \<longleftrightarrow> e = KeyError \<or> e = TypeError"
  by (simp add: py_only_def)

lemma py_only_bindE: "py_only m \<Longrightarrow> (\<And>x. py_only (f x)) \<Longrightarrow> py_only (bindE m f)"
  by (cases m) simp_all

lemma py_only_getitem: "py_only (getitem d k)"
  by (simp add: getitem_def split: option.splits)

lemma py_only_del_key: "py_only (del_key k d)"
  by (simp add: del_key_def)

lemma py_only_py_in: "py_only (py_in k v)"
  by (cases v) simp_all

lemma py_only_del_path: "py_only (del_path d ks)"
proof (induction d ks rule: del_path.induct)
  case (1 d)
  show ?case by (simp add: del_path.simps)
next
  case (2 d k)
  show ?case by (simp add: del_path.simps py_only_del_key)
next
  case (3 d k v va)
  have "py_only (case c of
         JDict d' \<Rightarrow> bindE (del_path d' (v # va)) (\<lambda>d''. Inr (AList.update k (JDict d'') d))
       | _ \<Rightarrow> Inl TypeError)" for c
    by (cases c) (simp_all add: py_only_bindE "3.IH")
  then show ?case by (simp add: del_path.simps py_only_bindE py_only_getitem)
qed

lemma py_only_scrub: "py_only (scrub k f d)"
  unfolding scrub_def
  by (intro py_only_bindE py_only_getitem py_only_py_in)
     (simp add: py_only_bindE py_only_del_path)

lemma py_only_drop_dns: "py_only (drop_dns k d)"
  by (simp add: drop_dns_def py_only_bindE py_only_scrub)

lemma py_only_drop_static: "py_only (drop_static k d)"
  by (simp add: drop_static_def py_only_bindE py_only_getitem py_only_del_key)

lemma py_only_drop_always: "py_only (drop_always k d)"
  by (simp add: drop_always_def py_only_del_key)

lemma py_only_take_type: "py_only (take_type ts p k s)"
  by (simp add: take_type_def py_only_bindE py_only_getitem py_only_del_key)

lemma py_only_step: "py_only (step ts p k s)"
  unfolding step_def
  by (intro py_only_bindE py_only_take_type py_only_drop_always py_only_drop_static
      py_only_drop_dns) simp

lemma py_only_run_keys: "py_only (run_keys ts p ks s)"
  by (induction ks arbitrary: s) (simp_all add: py_only_bindE py_only_step)

lemma run_keys_mirror_missing:
  assumes s: "vals s = values"
    and b: "b \<in> set dns_blocks" and f: "f = ''DNSServers'' \<or> f = ''UseDNSServers''"
    and present: "get_path values [b, f] \<noteq> None"
    and missing: "get_path values [''Oem'', ''Hpe'', b, f] = None"
  shows "run_keys ts p (map fst values) s \<noteq> Inr s'"
proof
  let ?M = "[''Oem'', ''Hpe'', b, f]"
  assume run: "run_keys ts p (map fst values) s = Inr s'"
  from run_keys_scrubbed [OF run s b f present] have 1: "get_path (vals s') [b, f] = None"
    by simp
  have "get_path (vals s') [b, f] \<noteq> None \<and> get_path (vals s') ?M = None"
  proof (rule run_keys_invariant [OF run,
        of "\<lambda>s. get_path (vals s) [b, f] \<noteq> None \<and> get_path (vals s) ?M = None"])
    show "get_path (vals s) [b, f] \<noteq> None \<and> get_path (vals s) ?M = None"
      using s present missing by simp
  next
    fix j x y assume st: "step ts p j x = Inr y"
      and inv: "get_path (vals x) [b, f] \<noteq> None \<and> get_path (vals x) ?M = None"
    show "get_path (vals y) [b, f] \<noteq> None \<and> get_path (vals y) ?M = None"
    proof (cases "j = b")
      case True
      with step_block [OF st] b have "drop_dns b (vals x) = Inr (vals y)" by simp
      from drop_dns_needs_mirror [OF this b f] inv show ?thesis by simp
    next
      case False
      from step_other_block [OF st b False, of f] inv
        shrinks_absent [OF shrinks_step [OF st], of ?M]
      show ?thesis by simp
    qed
  qed
  with 1 show False by simp
qed

subsection \<open>Keys on which the loop body does nothing\<close>

lemma settled_cong: "map_of d k = map_of d' k \<Longrightarrow> settled ts d k = settled ts d' k"
  by (simp add: settled_def)

lemma settled_scrub:
  assumes "map_of d k = Some blk" "py_in f blk = Inr False"
  shows "scrub k f d = Inr d"
  using assms by (simp add: scrub_def getitem_def)

lemma settled_step:
  assumes "settled ts (vals s) k"
  shows "step ts p k s = Inr s"
proof -
  from assms have 1: "take_type ts p k s = Inr s" by (simp add: settled_def take_type_def)
  from assms have 2: "drop_always k (vals s) = Inr (vals s)"
    by (simp add: settled_def drop_always_def)
  from assms have 3: "drop_static k (vals s) = Inr (vals s)"
    by (auto simp: settled_def drop_static_def getitem_def)
  have 4: "drop_dns k (vals s) = Inr (vals s)"
  proof (cases "k \<in> set dns_blocks")
    case True
    with assms obtain blk where "map_of (vals s) k = Some blk"
      "py_in ''DNSServers'' blk = Inr False" "py_in ''UseDNSServers'' blk = Inr False"
      unfolding settled_def by blast
    with True show ?thesis by (simp add: drop_dns_def settled_scrub)
  next
    case False
    then show ?thesis by (simp add: drop_dns_def)
  qed
  from 1 2 3 4 show ?thesis by (simp add: step_def)
qed

lemma run_keys_settled:
  "(\<And>k. k \<in> set ks \<Longrightarrow> settled ts (vals s) k) \<Longrightarrow> run_keys ts p ks s = Inr s"
  by (induction ks) (simp_all add: settled_step)

lemma scrub_block:
  assumes "scrub k f d = Inr d'" "k \<noteq> ''Oem''"
  shows "\<exists>blk blk'. map_of d k = Some blk \<and> map_of d' k = Some blk' \<and>
           py_in f blk' = Inr False \<and> (\<forall>g. py_in g blk = Inr False \<longrightarrow> py_in g blk' = Inr False)"
proof -
  from assms(1) obtain blk where blk: "map_of d k = Some blk" and
    c: "py_in f blk = Inr False \<and> d' = d \<or>
        py_in f blk = Inr True \<and> (\<exists>d1. del_path d [k, f] = Inr d1 \<and>
            del_path d1 [''Oem'', ''Hpe'', k, f] = Inr d')"
    unfolding scrub_Inr_iff by blast
  from c show ?thesis
  proof
    assume "py_in f blk = Inr False \<and> d' = d"
    with blk show ?thesis by simp
  next
    assume "py_in f blk = Inr True \<and> (\<exists>d1. del_path d [k, f] = Inr d1 \<and>
            del_path d1 [''Oem'', ''Hpe'', k, f] = Inr d')"
    then obtain d1 where d1: "del_path d [k, f] = Inr d1"
      "del_path d1 [''Oem'', ''Hpe'', k, f] = Inr d'" by blast
    from d1(1) obtain x x2 where x: "map_of d k = Some (JDict x)" "del_path x [f] = Inr x2"
      "d1 = AList.update k (JDict x2) d"
      unfolding del_path_Cons_iff by blast
    from x(2) have x2: "x2 = AList.delete f x" by (simp add: del_path.simps del_key_Inr_iff)
    from x(3) have "map_of d1 k = Some (JDict x2)" by (simp add: update_conv')
    moreover from del_path_map_of [OF d1(2), of k] assms(2) have "map_of d' k = map_of d1 k"
      by simp
    ultimately have "map_of d' k = Some (JDict (AList.delete f x))" using x2 by simp
    moreover have "py_in f (JDict (AList.delete f x)) = Inr False" by (simp add: keys_delete)
    moreover have "\<forall>g. py_in g (JDict x) = Inr False \<longrightarrow>
        py_in g (JDict (AList.delete f x)) = Inr False"
      by (simp add: keys_delete)
    ultimately show ?thesis using x(1) by simp
  qed
qed

lemma drop_dns_settles:
  assumes "drop_dns k d = Inr d'" "k \<in> set dns_blocks"
  shows "\<exists>blk. map_of d' k = Some blk \<and> py_in ''DNSServers'' blk = Inr False \<and>
           py_in ''UseDNSServers'' blk = Inr False"
proof -
  from assms obtain d1 where d1: "scrub k ''DNSServers'' d = Inr d1"
    "scrub k ''UseDNSServers'' d1 = Inr d'"
    by (auto simp: drop_dns_Inr_iff)
  from assms(2) have oem: "k \<noteq> ''Oem''" by (rule lists_disjoint)
  from scrub_block [OF d1(1) oem] obtain b1 where b1: "map_of d1 k = Some b1"
    "py_in ''DNSServers'' b1 = Inr False" by blast
  from scrub_block [OF d1(2) oem] obtain b1' b2 where b2: "map_of d1 k = Some b1'"
    "map_of d' k = Some b2" "py_in ''UseDNSServers'' b2 = Inr False"
    "\<forall>g. py_in g b1' = Inr False \<longrightarrow> py_in g b2 = Inr False" by blast
  from b1 b2(1) have "b1' = b1" by simp
  with b1(2) b2(4) have "py_in ''DNSServers'' b2 = Inr False" by blast
  with b2(2,3) show ?thesis by simp
qed

lemma step_settles:
  assumes "step ts p k s = Inr s'" "k \<in> fst ` set (vals s')"
  shows "settled ts (vals s') k"
proof -
  from step_own_gone [OF assms(1)] assms(2) have 1: "k \<noteq> ts" "k \<notin> set always_drop"
    by blast+
  have 2: "\<exists>v. map_of (vals s') k = Some v \<and> \<not> truthy v" if "k \<in> set static_lists"
  proof -
    from step_static [OF assms(1) that] obtain v where v: "map_of (vals s) k = Some v"
      "vals s' = (if truthy v then AList.delete k (vals s) else vals s)" by blast
    show ?thesis
    proof (cases "truthy v")
      case True
      with v(2) have "fst ` set (vals s') = fst ` set (vals s) - {k}" by (simp add: keys_delete)
      with assms(2) show ?thesis by simp
    next
      case False
      with v show ?thesis by simp
    qed
  qed
  have 3: "\<exists>blk. map_of (vals s') k = Some blk \<and> py_in ''DNSServers'' blk = Inr False \<and>
           py_in ''UseDNSServers'' blk = Inr False" if "k \<in> set dns_blocks"
    using drop_dns_settles [OF _ that] step_block [OF assms(1) that] by blast
  from 1 2 3 show ?thesis unfolding settled_def by blast
qed

lemma step_keeps_settled:
  assumes st: "step ts p j s = Inr s'"
    and inv: "k \<in> fst ` set (vals s) \<longrightarrow> settled ts (vals s) k"
  shows "k \<in> fst ` set (vals s') \<longrightarrow> settled ts (vals s') k"
proof
  assume k: "k \<in> fst ` set (vals s')"
  show "settled ts (vals s') k"
  proof (cases "j = k")
    case True
    with st k show ?thesis by (simp add: step_settles)
  next
    case False
    from k shrinks_keys [OF shrinks_step [OF st]] have "k \<in> fst ` set (vals s)" by (meson subsetD)
    with inv have old: "settled ts (vals s) k" by simp
    show ?thesis
    proof (cases "k = ''Oem''")
      case True
      then have "k \<notin> set static_lists" "k \<notin> set dns_blocks"
        using static_not_oem lists_disjoint(4) by blast+
      with old show ?thesis by (simp add: settled_def)
    next
      case oem: False
      then have "k \<noteq> ''Oem'' \<or> j \<notin> set dns_blocks" ..
      moreover from False have "k \<noteq> j" by blast
      ultimately have "map_of (vals s') k = map_of (vals s) k"
        by (rule step_frame [OF st, rotated])
      from settled_cong [OF this] old show ?thesis by simp
    qed
  qed
qed

lemma run_keys_all_settled:
  assumes run: "run_keys ts p (map fst values) s = Inr s'" and s: "vals s = values"
    and k: "k \<in> fst ` set (vals s')"
  shows "settled ts (vals s') k"
proof -
  from k shrinks_keys [OF shrinks_run_keys [OF run]] s have "k \<in> set (map fst values)"
    by auto
  from run_keys_establish [OF run this,
      of "\<lambda>s. k \<in> fst ` set (vals s) \<longrightarrow> settled ts (vals s) k"]
  have "k \<in> fst ` set (vals s') \<longrightarrow> settled ts (vals s') k"
    using step_settles step_keeps_settled by blast
  with k show ?thesis by simp
qed

subsection \<open>Locating the identity\<close>

lemma comprehension_Inl:
  "comprehension f xs = Inl e \<Longrightarrow> \<exists>x \<in> set xs. f x = Inl e"
proof (induction xs)
  case Nil
  then show ?case by simp
next
  case (Cons x xs)
  show ?case
  proof (cases "f x")
    case (Inl e')
    with Cons.prems show ?thesis by simp
  next
    case (Inr y)
    with Cons.prems have "comprehension f xs = Inl e"
      by (cases "comprehension f xs") simp_all
    with Cons.IH show ?thesis by auto
  qed
qed

lemma comprehension_all_Inr:
  "(\<And>x. x \<in> set xs \<Longrightarrow> \<exists>y. f x = Inr y) \<Longrightarrow> \<exists>ys. comprehension f xs = Inr ys"
proof (induction xs)
  case Nil
  show ?case by simp
next
  case (Cons x xs)
  from Cons.prems [of x] obtain y where "f x = Inr y" by auto
  moreover from Cons.IH Cons.prems obtain ys where "comprehension f xs = Inr ys" by auto
  ultimately show ?case by simp
qed

lemma comprehension_KeyError:
  assumes "\<And>x. x \<in> set xs \<Longrightarrow> py_only (f x)" "\<And>x. x \<in> set xs \<Longrightarrow> f x \<noteq> Inl TypeError"
    "\<exists>x \<in> set xs. f x = Inl KeyError"
  shows "comprehension f xs = Inl KeyError"
  using assms
proof (induction xs)
  case Nil
  then show ?case by simp
next
  case (Cons x xs)
  show ?case
  proof (cases "f x")
    case (Inl e)
    with Cons.prems(1) [of x] Cons.prems(2) [of x] have "e = KeyError" by auto
    with Inl show ?thesis by simp
  next
    case (Inr y)
    with Cons.prems(3) have "\<exists>x \<in> set xs. f x = Inl KeyError" by auto
    with Cons.IH Cons.prems(1,2) have "comprehension f xs = Inl KeyError" by simp
    with Inr show ?thesis by simp
  qed
qed

lemma py_only_single: "py_only (single key val)"
  by (simp add: single_def)

lemma py_only_subscript: "py_only (subscript v k)"
  by (cases v) (simp_all add: py_only_getitem)

lemma py_only_top_level: "py_only (top_level h r)"
  by (simp add: top_level_def py_only_bindE py_only_getitem py_only_single)

lemma py_only_links_self: "py_only (links_self h r)"
  unfolding links_self_def
  by (intro py_only_bindE py_only_getitem py_only_subscript py_only_single)

lemma py_only_comprehension:
  "(\<And>x. py_only (f x)) \<Longrightarrow> py_only (comprehension f xs)"
  by (induction xs) (simp_all add: py_only_bindE)

lemma py_only_not_corruption: "py_only r \<Longrightarrow> r \<noteq> Inl iLORisCorruptionError"
  by (auto simp: py_only_def)

lemma locate_corruption:
  "locate h content = Inl iLORisCorruptionError \<longleftrightarrow>
     comprehension (top_level h) content = Inl KeyError \<and>
     comprehension (links_self h) content = Inl KeyError"
proof -
  have 1: "comprehension (top_level h) content \<noteq> Inl iLORisCorruptionError"
    by (intro py_only_not_corruption py_only_comprehension py_only_top_level)
  have 2: "comprehension (links_self h) content \<noteq> Inl iLORisCorruptionError"
    by (intro py_only_not_corruption py_only_comprehension py_only_links_self)
  show ?thesis
  proof (cases "comprehension (top_level h) content")
    case (Inr ys)
    then show ?thesis by (simp add: locate_def)
  next
    case (Inl e)
    note top = this
    show ?thesis
    proof (cases "e = KeyError")
      case False
      with top 1 show ?thesis by (cases e) (simp_all add: locate_def)
    next
      case True
      show ?thesis
      proof (cases "comprehension (links_self h) content")
        case (Inr ys)
        with top True show ?thesis by (simp add: locate_def)
      next
        case (Inl e')
        with top True 2 show ?thesis by (cases e') (simp_all add: locate_def)
      qed
    qed
  qed
qed

lemma make_entry_not_corruption: "make_entry tc st \<noteq> Inl iLORisCorruptionError"
  by (simp add: make_entry_def)

lemma worker_loop_not_corruption:
  "worker_loop ts templist tc located \<noteq> Inl iLORisCorruptionError"
proof (induction located arbitrary: templist tc)
  case Nil
  show ?case by simp
next
  case (Cons r rest)
  obtain path "values" where r: "r = (path, values)" by (cases r)
  have red: "redact ts path values \<noteq> Inl iLORisCorruptionError"
    unfolding redact_def by (intro py_only_not_corruption py_only_run_keys)
  show ?case
  proof (cases "redact ts path values")
    case (Inl e)
    with red r show ?thesis by auto
  next
    case (Inr st)
    note st = this
    show ?thesis
    proof (cases "make_entry tc st")
      case (Inl e)
      with make_entry_not_corruption [of tc st] st r show ?thesis by auto
    next
      case (Inr tc2)
      with st r Cons.IH show ?thesis by (cases tc2) simp_all
    qed
  qed
qed

lemma saveworkerfunction_corruption:
  "saveworkerfunction h ts content = Inl iLORisCorruptionError \<longleftrightarrow>
     locate h content = Inl iLORisCorruptionError"
  by (cases "locate h content") (simp_all add: saveworkerfunction_def worker_loop_not_corruption)

subsection \<open>Sorting\<close>

declare nested_sort.simps [simp del]

lemma nested_sort_eq:
  "nested_sort d = sort_key fst (map (\<lambda>(k, v). (k, sort_value v)) d)"
  by (subst nested_sort.simps) (simp add: sort_value_def)



lemma nested_sort_keys: "fst ` set (nested_sort d) = fst ` set d"
  by (force simp: nested_sort_eq)







subsection \<open>C1: records left empty by redaction\<close>


subsection \<open>C2: identity fields inside the entries\<close>




subsection \<open>C3: when extraction raises the corruption error\<close>

text \<open>
  C3, as amended. The two conventions are tried on the whole batch, not record by record:
  extraction raises \<^verbatim>\<open>iLORisCorruptionError\<close> if and only if the top-level lookup, run
  over the batch, ends in \<^verbatim>\<open>KeyError\<close> and the \<^verbatim>\<open>links/self\<close> lookup, run over the
  batch, ends in \<^verbatim>\<open>KeyError\<close> as well. So a batch in which every record has its identity
  under the same convention never raises it; and where no lookup raises \<^verbatim>\<open>TypeError\<close>,
  it is raised if and only if some record lacks the top-level key and some record lacks
  the \<^verbatim>\<open>links/self\<close> key.
\<close>

theorem corruption_iff:
  "(saveworkerfunction hrefstring type_string content = Inl iLORisCorruptionError \<longleftrightarrow>
      comprehension (top_level hrefstring) content = Inl KeyError \<and>
      comprehension (links_self hrefstring) content = Inl KeyError)
   \<and> ((\<forall>r \<in> set content. \<exists>x. top_level hrefstring r = Inr x) \<or>
       (\<forall>r \<in> set content. \<exists>x. links_self hrefstring r = Inr x) \<longrightarrow>
       saveworkerfunction hrefstring type_string content \<noteq> Inl iLORisCorruptionError)
   \<and> ((\<forall>r \<in> set content. top_level hrefstring r \<noteq> Inl TypeError \<and>
                            links_self hrefstring r \<noteq> Inl TypeError) \<longrightarrow>
       (saveworkerfunction hrefstring type_string content = Inl iLORisCorruptionError \<longleftrightarrow>
          (\<exists>r \<in> set content. top_level hrefstring r = Inl KeyError) \<and>
          (\<exists>r \<in> set content. links_self hrefstring r = Inl KeyError)))"
proof (intro conjI impI)
  show a: "saveworkerfunction hrefstring type_string content = Inl iLORisCorruptionError \<longleftrightarrow>
      comprehension (top_level hrefstring) content = Inl KeyError \<and>
      comprehension (links_self hrefstring) content = Inl KeyError"
    by (simp add: saveworkerfunction_corruption locate_corruption)
  {
    assume "(\<forall>r \<in> set content. \<exists>x. top_level hrefstring r = Inr x) \<or>
       (\<forall>r \<in> set content. \<exists>x. links_self hrefstring r = Inr x)"
    then have "(\<exists>ys. comprehension (top_level hrefstring) content = Inr ys) \<or>
       (\<exists>ys. comprehension (links_self hrefstring) content = Inr ys)"
      using comprehension_all_Inr [of content "top_level hrefstring"]
        comprehension_all_Inr [of content "links_self hrefstring"] by blast
    with a show "saveworkerfunction hrefstring type_string content \<noteq> Inl iLORisCorruptionError"
      by auto
  }
  {
    assume wt: "\<forall>r \<in> set content. top_level hrefstring r \<noteq> Inl TypeError \<and>
                            links_self hrefstring r \<noteq> Inl TypeError"
    show "saveworkerfunction hrefstring type_string content = Inl iLORisCorruptionError \<longleftrightarrow>
          (\<exists>r \<in> set content. top_level hrefstring r = Inl KeyError) \<and>
          (\<exists>r \<in> set content. links_self hrefstring r = Inl KeyError)"
    proof
      assume "saveworkerfunction hrefstring type_string content = Inl iLORisCorruptionError"
      with a comprehension_Inl [of "top_level hrefstring" content KeyError]
        comprehension_Inl [of "links_self hrefstring" content KeyError]
      show "(\<exists>r \<in> set content. top_level hrefstring r = Inl KeyError) \<and>
          (\<exists>r \<in> set content. links_self hrefstring r = Inl KeyError)" by blast
    next
      assume b: "(\<exists>r \<in> set content. top_level hrefstring r = Inl KeyError) \<and>
          (\<exists>r \<in> set content. links_self hrefstring r = Inl KeyError)"
      have "comprehension (top_level hrefstring) content = Inl KeyError"
        by (rule comprehension_KeyError) (use wt b py_only_top_level in auto)
      moreover have "comprehension (links_self hrefstring) content = Inl KeyError"
        by (rule comprehension_KeyError) (use wt b py_only_links_self in auto)
      ultimately show "saveworkerfunction hrefstring type_string content
          = Inl iLORisCorruptionError"
        using a by simp
    qed
  }
qed

text \<open>
  Two records with the nested identity: no corruption error. A record without any identity
  after one with a top-level identity: the corruption error.
\<close>

theorem corruption_iff_witness:
  "saveworkerfunction ''href'' ''Type'' [legacy_links, legacy_links] \<noteq> Inl iLORisCorruptionError
   \<and> saveworkerfunction ''href'' ''Type'' [legacy_top, no_identity] = Inl iLORisCorruptionError"
proof -
  have 1: "\<forall>r \<in> set [legacy_links, legacy_links]. \<exists>x. links_self ''href'' r = Inr x"
    by (simp add: legacy_links_def links_self_def getitem_def single_def)
  have 2: "\<forall>r \<in> set [legacy_top, no_identity]. top_level ''href'' r \<noteq> Inl TypeError \<and>
                            links_self ''href'' r \<noteq> Inl TypeError"
    by (simp add: legacy_top_def no_identity_def links_self_def top_level_def getitem_def
        single_def)
  have 3: "\<exists>r \<in> set [legacy_top, no_identity]. top_level ''href'' r = Inl KeyError"
    by (simp add: no_identity_def top_level_def getitem_def)
  have 4: "\<exists>r \<in> set [legacy_top, no_identity]. links_self ''href'' r = Inl KeyError"
    by (simp add: no_identity_def links_self_def getitem_def)
  from corruption_iff [of "''href''" "''Type''" "[legacy_links, legacy_links]"] 1
    corruption_iff [of "''href''" "''Type''" "[legacy_top, no_identity]"] 2 3 4
  show ?thesis by blast
qed

text \<open>
  C3 as stated fails on a mixed batch: each record has its identity under one of the two
  conventions, and extraction raises the corruption error all the same.
\<close>

theorem mixed_batch_counterexample:
  "top_level ''href'' legacy_top = Inr (JStr ''/rest/v1/Systems/1'', legacy_top)
   \<and> links_self ''href'' legacy_links = Inr (JStr ''/rest/v1/Chassis/1'', legacy_links)
   \<and> saveworkerfunction ''href'' ''Type'' [legacy_top, legacy_links] = Inl iLORisCorruptionError"
  by code_simp


subsection \<open>C4: fields dropped at top level\<close>

text \<open>
  C4. When the redaction loop completes on a record, none of \<^verbatim>\<open>IPv4Addresses\<close>,
  \<^verbatim>\<open>IPv6Addresses\<close>, \<^verbatim>\<open>IPv6AddressPolicyTable\<close>, \<^verbatim>\<open>MACAddress\<close>,
  \<^verbatim>\<open>StaticNameServers\<close>, \<^verbatim>\<open>AutoNeg\<close>, \<^verbatim>\<open>FullDuplex\<close>, \<^verbatim>\<open>SpeedMbps\<close> is left at top
  level, and each of \<^verbatim>\<open>IPv6StaticAddresses\<close>, \<^verbatim>\<open>IPv6StaticDefaultGateways\<close>,
  \<^verbatim>\<open>IPv4StaticAddresses\<close> that was present is deleted if and only if its value is
  non-empty (truthy): an empty one is kept with its value.
\<close>

theorem redact_drops:
  assumes "redact type_string path values = Inr st"
  shows "(\<forall>k \<in> {''IPv4Addresses'', ''IPv6Addresses'', ''IPv6AddressPolicyTable'', ''MACAddress'',
             ''StaticNameServers'', ''AutoNeg'', ''FullDuplex'', ''SpeedMbps''}.
            k \<notin> fst ` set (vals st))
       \<and> (\<forall>k \<in> {''IPv6StaticAddresses'', ''IPv6StaticDefaultGateways'', ''IPv4StaticAddresses''}.
            \<forall>v. map_of values k = Some v \<longrightarrow>
              map_of (vals st) k = (if truthy v then None else Some v))"
proof -
  from assms have rk: "run_keys type_string path (map fst values)
      \<lparr>vals = values, typeselector = JNull, pathselector = JNull\<rparr> = Inr st"
    by (simp add: redact_def)
  have a: "k \<notin> fst ` set (vals st)" if "k \<in> set always_drop" for k
    using run_keys_gone [OF rk _ disjI2 [OF that]] by simp
  have s: "map_of (vals st) k = (if truthy v then None else Some v)"
    if "k \<in> set static_lists" "map_of values k = Some v" for k v
    using run_keys_static [OF rk _ that] by simp
  have 1: "{''IPv4Addresses'', ''IPv6Addresses'', ''IPv6AddressPolicyTable'', ''MACAddress'',
             ''StaticNameServers'', ''AutoNeg'', ''FullDuplex'', ''SpeedMbps''} = set always_drop"
    by (simp add: always_drop_def)
  have 2: "{''IPv6StaticAddresses'', ''IPv6StaticDefaultGateways'', ''IPv4StaticAddresses''}
      = set static_lists"
    by (simp add: static_lists_def)
  show ?thesis unfolding 1 2 using a s by blast
qed

text \<open>
  A network interface: the MAC address, the link speed and the non-empty static IPv6 list
  go, the empty static IPv4 list stays.
\<close>

theorem redact_drops_witness:
  "redact ''@odata.type'' (JStr ''/nic'') nic =
     Inr \<lparr>vals = [(''IPv4StaticAddresses'', JList []), (''HostName'', JStr ''ilo'')],
          typeselector = JStr ''EthernetInterface.'', pathselector = JStr ''/nic''\<rparr>
   \<and> ''MACAddress'' \<notin> fst ` set [(''IPv4StaticAddresses'', JList []), (''HostName'', JStr ''ilo'')]
   \<and> ''SpeedMbps'' \<notin> fst ` set [(''IPv4StaticAddresses'', JList []), (''HostName'', JStr ''ilo'')]
   \<and> map_of [(''IPv4StaticAddresses'', JList []), (''HostName'', JStr ''ilo'')]
        ''IPv6StaticAddresses'' = None
   \<and> map_of [(''IPv4StaticAddresses'', JList []), (''HostName'', JStr ''ilo'')]
        ''IPv4StaticAddresses'' = Some (JList [])"
proof -
  have h: "redact ''@odata.type'' (JStr ''/nic'') nic =
     Inr \<lparr>vals = [(''IPv4StaticAddresses'', JList []), (''HostName'', JStr ''ilo'')],
          typeselector = JStr ''EthernetInterface.'', pathselector = JStr ''/nic''\<rparr>"
    by code_simp
  from redact_drops [OF h] h show ?thesis
    by (simp add: nic_def)
qed

subsection \<open>C5: name-server fields and their mirror\<close>

text \<open>
  C5, as amended. On a record that holds a protocol block \<^verbatim>\<open>IPv4\<close>, \<^verbatim>\<open>IPv6\<close>,
  \<^verbatim>\<open>DHCPv4\<close> or \<^verbatim>\<open>DHCPv6\<close> with a sub-field \<^verbatim>\<open>DNSServers\<close> or \<^verbatim>\<open>UseDNSServers\<close>,
  the redaction loop either raises \<^verbatim>\<open>KeyError\<close> or \<^verbatim>\<open>TypeError\<close>, or completes; it
  completes only if the record holds the same sub-field under \<^verbatim>\<open>Oem.Hpe.<block>\<close>, and
  then the sub-field is absent afterwards both from the block and from that mirror.
\<close>

theorem redact_scrubs_dns:
  assumes "b \<in> {''IPv4'', ''IPv6'', ''DHCPv4'', ''DHCPv6''}"
    and "f \<in> {''DNSServers'', ''UseDNSServers''}"
    and "get_path values [b, f] \<noteq> None"
  shows "case redact type_string path values of
           Inr st \<Rightarrow> get_path values [''Oem'', ''Hpe'', b, f] \<noteq> None \<and>
                     get_path (vals st) [b, f] = None \<and>
                     get_path (vals st) [''Oem'', ''Hpe'', b, f] = None
         | Inl e \<Rightarrow> e = KeyError \<or> e = TypeError"
proof (cases "redact type_string path values")
  case (Inl e)
  with py_only_run_keys [of type_string path "map fst values"
      "\<lparr>vals = values, typeselector = JNull, pathselector = JNull\<rparr>"]
  show ?thesis by (simp add: redact_def py_only_def)
next
  case (Inr st)
  from assms(1) have b: "b \<in> set dns_blocks" by (auto simp: dns_blocks_def)
  from assms(2) have f: "f = ''DNSServers'' \<or> f = ''UseDNSServers''" by simp
  from Inr have rk: "run_keys type_string path (map fst values)
      \<lparr>vals = values, typeselector = JNull, pathselector = JNull\<rparr> = Inr st"
    by (simp add: redact_def)
  have "get_path values [''Oem'', ''Hpe'', b, f] \<noteq> None"
  proof
    assume "get_path values [''Oem'', ''Hpe'', b, f] = None"
    from run_keys_mirror_missing [OF _ b f assms(3) this, of _ type_string path st] rk
    show False by simp
  qed
  moreover from run_keys_scrubbed [OF rk _ b f assms(3)]
  have "get_path (vals st) [b, f] = None \<and> get_path (vals st) [''Oem'', ''Hpe'', b, f] = None"
    by simp
  ultimately show ?thesis using Inr by simp
qed

text \<open>The scenario of the specification: both copies of \<^verbatim>\<open>DNSServers\<close> are gone.\<close>

theorem redact_scrubs_dns_witness:
  "redact ''@odata.type'' (JStr ''/nic'') nic_dns =
     Inr \<lparr>vals = [(''IPv4'', JDict [(''Gateway'', JStr ''10.0.0.254'')]),
                  (''Oem'', JDict [(''Hpe'', JDict [(''IPv4'', JDict [(''DDNS'', JBool True)])])])],
          typeselector = JStr ''EthernetInterface.'', pathselector = JStr ''/nic''\<rparr>
   \<and> get_path nic_dns [''Oem'', ''Hpe'', ''IPv4'', ''DNSServers''] = Some (JList [JStr ''10.0.0.1''])
   \<and> get_path [(''IPv4'', JDict [(''Gateway'', JStr ''10.0.0.254'')]),
                  (''Oem'', JDict [(''Hpe'', JDict [(''IPv4'', JDict [(''DDNS'', JBool True)])])])]
         [''IPv4'', ''DNSServers''] = None
   \<and> get_path [(''IPv4'', JDict [(''Gateway'', JStr ''10.0.0.254'')]),
                  (''Oem'', JDict [(''Hpe'', JDict [(''IPv4'', JDict [(''DDNS'', JBool True)])])])]
         [''Oem'', ''Hpe'', ''IPv4'', ''DNSServers''] = None"
proof -
  have h: "redact ''@odata.type'' (JStr ''/nic'') nic_dns =
     Inr \<lparr>vals = [(''IPv4'', JDict [(''Gateway'', JStr ''10.0.0.254'')]),
                  (''Oem'', JDict [(''Hpe'', JDict [(''IPv4'', JDict [(''DDNS'', JBool True)])])])],
          typeselector = JStr ''EthernetInterface.'', pathselector = JStr ''/nic''\<rparr>"
    by code_simp
  have 2: "get_path nic_dns [''IPv4'', ''DNSServers''] \<noteq> None" by code_simp
  have 3: "get_path nic_dns [''Oem'', ''Hpe'', ''IPv4'', ''DNSServers'']
      = Some (JList [JStr ''10.0.0.1''])" by code_simp
  from redact_scrubs_dns [of "''IPv4''" "''DNSServers''" nic_dns "''@odata.type''" "JStr ''/nic''",
      OF _ _ 2] h 3
  show ?thesis by simp
qed

text \<open>
  C5 as stated fails for a record whose block has the sub-field while the mirror does not:
  the deletion in the mirror raises \<^verbatim>\<open>KeyError\<close>, the redaction does not complete and the
  extraction of the batch ends with that exception.
\<close>

theorem redact_raises_counterexample:
  "get_path nic_v6 [''IPv6'', ''UseDNSServers''] = Some (JBool True)
   \<and> redact ''@odata.type'' (JStr ''/redfish/v1/Managers/1/EthernetInterfaces/1'') nic_v6
       = Inl KeyError
   \<and> saveworkerfunction ''@odata.id'' ''@odata.type'' [nic_v6] = Inl KeyError"
  by code_simp

section \<open>The claims\<close>

subsection \<open>C6: assembling the snapshot\<close>

text \<open>
  C6. When every extraction pass returns (the primary selection first, then every further
  requested type in the caller's order), building the snapshot fails with
  \<^verbatim>\<open>NothingSelectedError\<close> if and only if the passes together hold no entry; otherwise it
  succeeds, the header is element zero, and the entries follow in the order in which the
  passes produced them.
\<close>

theorem snapshot_of_passes:
  assumes "map (saveworkerfunction h t) (primary # multisave) = map Inr passes"
  shows "(snapshot h t primary multisave headers = Inl NothingSelectedError
            \<longleftrightarrow> concat passes = [])
       \<and> (concat passes \<noteq> [] \<longrightarrow>
            snapshot h t primary multisave headers
              = Inr (Header headers # map Entry (concat passes)))"
  using gather_ok [OF assms] by (simp add: snapshot_def assemble_def add_save_file_header_eq)

text \<open>A save of two types: the header, then the entry of each pass in request order.\<close>

theorem snapshot_of_passes_witness:
  "snapshot ''@odata.id'' ''@odata.type'' [bios] [[chassis]] [(''Comments'', JStr ''x'')] =
     Inr [Header [(''Comments'', JStr ''x'')],
          Entry \<lparr>etype = JStr ''Bios.'', epath = JStr ''/redfish/v1/systems/1/bios'',
            eprops = [(''@odata.id'', JStr ''/redfish/v1/systems/1/bios''), (''AttributeX'', JNum 1)]\<rparr>,
          Entry \<lparr>etype = JStr ''Chassis.'', epath = JStr ''/redfish/v1/chassis/1'',
            eprops = [(''@odata.id'', JStr ''/redfish/v1/chassis/1''), (''AssetTag'', JStr '''')]\<rparr>]"
proof -
  have h: "map (saveworkerfunction ''@odata.id'' ''@odata.type'') ([bios] # [[chassis]]) =
     map Inr [[\<lparr>etype = JStr ''Bios.'', epath = JStr ''/redfish/v1/systems/1/bios'',
            eprops = [(''@odata.id'', JStr ''/redfish/v1/systems/1/bios''), (''AttributeX'', JNum 1)]\<rparr>],
          [\<lparr>etype = JStr ''Chassis.'', epath = JStr ''/redfish/v1/chassis/1'',
            eprops = [(''@odata.id'', JStr ''/redfish/v1/chassis/1''), (''AssetTag'', JStr '''')]\<rparr>]]"
    by code_simp
  from snapshot_of_passes [OF h, of "[(''Comments'', JStr ''x'')]"] show ?thesis by simp
qed

subsection \<open>C7: the canonical sort\<close>






subsection \<open>C8: redaction is idempotent\<close>

text \<open>
  C8. When the redaction loop completes on a record, running it again on the resulting
  mapping completes too and returns that mapping unchanged (and finds no type selector).
\<close>

theorem redact_idempotent:
  assumes "redact type_string path values = Inr st"
  shows "redact type_string path' (vals st) =
           Inr \<lparr>vals = vals st, typeselector = JNull, pathselector = JNull\<rparr>"
proof -
  from assms have "settled type_string (vals st) k" if "k \<in> set (map fst (vals st))" for k
    using run_keys_all_settled [of type_string path "values" _ st k] that
    by (simp add: redact_def)
  then show ?thesis unfolding redact_def by (intro run_keys_settled) simp
qed

text \<open>The interface with a mirrored block: the second pass changes nothing.\<close>

theorem redact_idempotent_witness:
  "redact ''@odata.type'' (JStr ''/nic'') nic_dns =
     Inr \<lparr>vals = [(''IPv4'', JDict [(''Gateway'', JStr ''10.0.0.254'')]),
                  (''Oem'', JDict [(''Hpe'', JDict [(''IPv4'', JDict [(''DDNS'', JBool True)])])])],
          typeselector = JStr ''EthernetInterface.'', pathselector = JStr ''/nic''\<rparr>
   \<and> redact ''@odata.type'' (JStr ''/nic'')
       [(''IPv4'', JDict [(''Gateway'', JStr ''10.0.0.254'')]),
        (''Oem'', JDict [(''Hpe'', JDict [(''IPv4'', JDict [(''DDNS'', JBool True)])])])] =
     Inr \<lparr>vals = [(''IPv4'', JDict [(''Gateway'', JStr ''10.0.0.254'')]),
                  (''Oem'', JDict [(''Hpe'', JDict [(''IPv4'', JDict [(''DDNS'', JBool True)])])])],
          typeselector = JNull, pathselector = JNull\<rparr>"
proof -
  have h: "redact ''@odata.type'' (JStr ''/nic'') nic_dns =
     Inr \<lparr>vals = [(''IPv4'', JDict [(''Gateway'', JStr ''10.0.0.254'')]),
                  (''Oem'', JDict [(''Hpe'', JDict [(''IPv4'', JDict [(''DDNS'', JBool True)])])])],
          typeselector = JStr ''EthernetInterface.'', pathselector = JStr ''/nic''\<rparr>"
    by code_simp
  from redact_idempotent [OF h, of "JStr ''/nic''"] h show ?thesis by simp
qed


subsection \<open>C9: errors and the destination file\<close>

text \<open>
  C9, as amended. If an extraction pass raises, \<^verbatim>\<open>run\<close> raises and the destination file
  is left as it was. If every pass returns, then: when the passes together hold no entry,
  \<^verbatim>\<open>run\<close> raises \<^verbatim>\<open>NothingSelectedError\<close> and the file is left as it was; otherwise the file
  is opened, hence created or emptied, before the document is serialised, so when
  serialising or enciphering raises, \<^verbatim>\<open>run\<close> raises that exception and the file is left
  empty; and when they return, the file holds the complete encoded document and \<^verbatim>\<open>run\<close>
  returns \<^verbatim>\<open>SUCCESS\<close>, unless the logout routine raises: then \<^verbatim>\<open>run\<close> ends with that
  exception and the complete document stays written. A failing save never leaves a part of
  a document, but it can leave an empty file or a complete one.
\<close>

theorem run_destination:
  "((\<exists>b \<in> set (primary # multisave). \<exists>e. saveworkerfunction h t b = Inl e) \<longrightarrow>
      (\<exists>e. run dumps encrypt_file logout_routine h t primary multisave headers encryption file
             = (Inl e, file)))
   \<and> (\<forall>passes. map (saveworkerfunction h t) (primary # multisave) = map Inr passes \<longrightarrow>
        run dumps encrypt_file logout_routine h t primary multisave headers encryption file =
          (if concat passes = [] then (Inl NothingSelectedError, file)
           else case encode dumps encrypt_file encryption
                       (Header headers # map Entry (concat passes)) of
                  Inl e \<Rightarrow> (Inl e, Some [])
                | Inr data \<Rightarrow> (bindE logout_routine (\<lambda>_. Inr SUCCESS), Some data)))"
proof (intro conjI impI allI)
  assume "\<exists>b \<in> set (primary # multisave). \<exists>e. saveworkerfunction h t b = Inl e"
  from gather_fails [OF this] obtain e where "gather h t primary multisave = Inl e" by blast
  then have "snapshot h t primary multisave headers = Inl e" by (simp add: snapshot_def)
  then have "run dumps encrypt_file logout_routine h t primary multisave headers encryption file
             = (Inl e, file)" by (simp add: run_def)
  then show "\<exists>e. run dumps encrypt_file logout_routine h t primary multisave headers
      encryption file = (Inl e, file)" ..
next
  fix passes
  assume p: "map (saveworkerfunction h t) (primary # multisave) = map Inr passes"
  show "run dumps encrypt_file logout_routine h t primary multisave headers encryption file =
          (if concat passes = [] then (Inl NothingSelectedError, file)
           else case encode dumps encrypt_file encryption
                       (Header headers # map Entry (concat passes)) of
                  Inl e \<Rightarrow> (Inl e, Some [])
                | Inr data \<Rightarrow> (bindE logout_routine (\<lambda>_. Inr SUCCESS), Some data))"
  proof (cases "concat passes = []")
    case True
    with gather_ok [OF p] have "snapshot h t primary multisave headers = Inl NothingSelectedError"
      by (simp add: snapshot_def assemble_def)
    with True show ?thesis by (simp add: run_def)
  next
    case False
    with gather_ok [OF p] have "snapshot h t primary multisave headers
        = Inr (Header headers # map Entry (concat passes))"
      by (simp add: snapshot_def assemble_def add_save_file_header_eq)
    then have "run dumps encrypt_file logout_routine h t primary multisave headers encryption file
        = (case encode dumps encrypt_file encryption (Header headers # map Entry (concat passes)) of
             Inl e \<Rightarrow> (Inl e, Some [])
           | Inr data \<Rightarrow> (bindE logout_routine (\<lambda>_. Inr SUCCESS), Some data))"
      by (simp add: run_def Let_def)
    then show ?thesis by (simp only: False if_False)
  qed
qed

text \<open>
  Two selections saved while the logout fails: the document is written and \<^verbatim>\<open>run\<close> raises.
  An empty selection, and a batch whose identities cannot be located: the earlier save is
  still there.
\<close>

theorem run_destination_witness:
  "run (\<lambda>sort_keys contents. Inr ''[...]'') (\<lambda>txt key. Inr txt) (Inl ExternalError)
     ''@odata.id'' ''@odata.type'' [bios] [[chassis]] [] None (Some ''previous save'')
     = (Inl ExternalError, Some ''[...]'')
   \<and> run (\<lambda>sort_keys contents. Inr ''[...]'') (\<lambda>txt key. Inr txt) (Inr ())
     ''@odata.id'' ''@odata.type'' [] [[]] [] None (Some ''previous save'')
     = (Inl NothingSelectedError, Some ''previous save'')
   \<and> (\<exists>e. run (\<lambda>sort_keys contents. Inr ''[...]'') (\<lambda>txt key. Inr txt) (Inr ())
     ''href'' ''Type'' [legacy_top] [[legacy_links, legacy_top]] [] None (Some ''previous save'')
     = (Inl e, Some ''previous save''))"
proof -
  have 1: "map (saveworkerfunction ''@odata.id'' ''@odata.type'') ([bios] # [[chassis]]) =
     map Inr [[\<lparr>etype = JStr ''Bios.'', epath = JStr ''/redfish/v1/systems/1/bios'',
            eprops = [(''@odata.id'', JStr ''/redfish/v1/systems/1/bios''), (''AttributeX'', JNum 1)]\<rparr>],
          [\<lparr>etype = JStr ''Chassis.'', epath = JStr ''/redfish/v1/chassis/1'',
            eprops = [(''@odata.id'', JStr ''/redfish/v1/chassis/1''), (''AssetTag'', JStr '''')]\<rparr>]]"
    by code_simp
  have 2: "map (saveworkerfunction ''@odata.id'' ''@odata.type'') ([] # [[]]) = map Inr [[], []]"
    by code_simp
  have 3: "\<exists>b \<in> set ([legacy_top] # [[legacy_links, legacy_top]]).
      \<exists>e. saveworkerfunction ''href'' ''Type'' b = Inl e"
  proof -
    have "saveworkerfunction ''href'' ''Type'' [legacy_links, legacy_top]
        = Inl iLORisCorruptionError" by code_simp
    then show ?thesis by simp
  qed
  note a = run_destination [of "[bios]" "[[chassis]]" "''@odata.id''" "''@odata.type''"
      "\<lambda>sort_keys contents. Inr ''[...]''" "\<lambda>txt key. Inr txt" "Inl ExternalError" "[]" None
      "Some ''previous save''"]
  note b = run_destination [of "[]" "[[]]" "''@odata.id''" "''@odata.type''"
      "\<lambda>sort_keys contents. Inr ''[...]''" "\<lambda>txt key. Inr txt" "Inr ()" "[]" None
      "Some ''previous save''"]
  note c = run_destination [of "[legacy_top]" "[[legacy_links, legacy_top]]" "''href''" "''Type''"
      "\<lambda>sort_keys contents. Inr ''[...]''" "\<lambda>txt key. Inr txt" "Inr ()" "[]" None
      "Some ''previous save''"]
  from a [THEN conjunct2, rule_format, OF 1]
  have "run (\<lambda>sort_keys contents. Inr ''[...]'') (\<lambda>txt key. Inr txt) (Inl ExternalError)
     ''@odata.id'' ''@odata.type'' [bios] [[chassis]] [] None (Some ''previous save'')
     = (Inl ExternalError, Some ''[...]'')"
    by (simp add: encode_def)
  moreover from b [THEN conjunct2, rule_format, OF 2] have "run (\<lambda>sort_keys contents. Inr ''[...]'') (\<lambda>txt key. Inr txt) (Inr ())
     ''@odata.id'' ''@odata.type'' [] [[]] [] None (Some ''previous save'')
     = (Inl NothingSelectedError, Some ''previous save'')"
    by simp
  moreover from c 3 have "\<exists>e. run (\<lambda>sort_keys contents. Inr ''[...]'') (\<lambda>txt key. Inr txt) (Inr ())
     ''href'' ''Type'' [legacy_top] [[legacy_links, legacy_top]] [] None (Some ''previous save'')
     = (Inl e, Some ''previous save'')"
    by blast
  ultimately show ?thesis by blast
qed

text \<open>
  C9 as stated fails for the encoding stage: the file is opened for writing, hence emptied,
  before the document is serialised and enciphered. Here the cipher rejects the key, and
  the earlier save is lost.
\<close>

theorem run_truncates_counterexample:
  "run (\<lambda>sort_keys contents. Inr ''[...]'')
       (\<lambda>txt key. if length key \<in> {16, 24, 32} then Inr txt else Inl ExternalError) (Inr ())
       ''@odata.id'' ''@odata.type'' [bios] [] [] (Some ''short'') (Some ''previous save'')
   = (Inl ExternalError, Some [])"
  by (simp add: run_def snapshot_def gather_def saveworkerfunction_def locate_def top_level_def
      getitem_def single_def bios_def redact_def step_def take_type_def drop_always_def
      drop_static_def drop_dns_def always_drop_def static_lists_def dns_blocks_def del_key_def
      make_entry_def assemble_def encode_def add_save_file_header_def)

subsection \<open>C10: a protocol block without its mirror\<close>

text \<open>
  C10, as amended. When a record holds a protocol block with a \<^verbatim>\<open>DNSServers\<close> or
  \<^verbatim>\<open>UseDNSServers\<close> sub-field and the same sub-field is not found under
  \<^verbatim>\<open>Oem.Hpe.<block>\<close>, the redaction loop does not complete: it raises
  \<^verbatim>\<open>KeyError\<close> or \<^verbatim>\<open>TypeError\<close>, neither of which is caught.
\<close>

theorem redact_mirror_missing:
  assumes "b \<in> set dns_blocks"
    and "f = ''DNSServers'' \<or> f = ''UseDNSServers''"
    and "get_path values [b, f] \<noteq> None"
    and "get_path values [''Oem'', ''Hpe'', b, f] = None"
  shows "redact type_string path values = Inl KeyError \<or>
         redact type_string path values = Inl TypeError"
proof (cases "redact type_string path values")
  case (Inl e)
  with py_only_run_keys [of type_string path "map fst values"
      "\<lparr>vals = values, typeselector = JNull, pathselector = JNull\<rparr>"]
  show ?thesis by (simp add: redact_def)
next
  case (Inr st)
  with run_keys_mirror_missing [OF _ assms, of _ type_string path st] show ?thesis
    by (simp add: redact_def)
qed

text \<open>No \<^verbatim>\<open>Oem\<close> field at all: \<^verbatim>\<open>KeyError\<close>.\<close>

theorem redact_mirror_missing_witness:
  "redact ''@odata.type'' (JStr ''/nic'') nic_no_mirror = Inl KeyError"
proof -
  have 1: "''IPv4'' \<in> set dns_blocks" by (simp add: dns_blocks_def)
  have 2: "get_path nic_no_mirror [''IPv4'', ''DNSServers''] \<noteq> None" by code_simp
  have 3: "get_path nic_no_mirror [''Oem'', ''Hpe'', ''IPv4'', ''DNSServers''] = None"
    by code_simp
  have 4: "redact ''@odata.type'' (JStr ''/nic'') nic_no_mirror \<noteq> Inl TypeError"
    by code_simp
  from redact_mirror_missing [OF 1 _ 2 3, of "''@odata.type''" "JStr ''/nic''"] 4
  show ?thesis by simp
qed

text \<open>
  C10 as stated fails where the mirror is missing because a value on the way to it is not
  a mapping: with \<^verbatim>\<open>"Hpe": null\<close> the subscript raises \<^verbatim>\<open>TypeError\<close>, not
  \<^verbatim>\<open>KeyError\<close>.
\<close>

theorem redact_type_error_counterexample:
  "get_path nic_null_mirror [''IPv4'', ''DNSServers''] = Some (JList [JStr ''10.0.0.1''])
   \<and> get_path nic_null_mirror [''Oem'', ''Hpe'', ''IPv4''] = None
   \<and> redact ''@odata.type'' (JStr ''/nic'') nic_null_mirror = Inl TypeError"
  by code_simp


end
